theory Spec2Isabelle
  imports Main
begin

section \<open>C strings, digits and atoi\<close>

text \<open>
  A C string is modelled by the list of its characters; the terminating NUL is implicit:
  reading at or after the end of the list yields NUL. The scanner and the interpreter never
  read past the first NUL, so whatever a list holds after an embedded NUL is never looked at.
\<close>

definition char_at :: "string \<Rightarrow> nat \<Rightarrow> char" where
  "char_at text k = (if k < length text then text ! k else CHR 0x00)"

definition cstr :: "string \<Rightarrow> string" where
  "cstr s = takeWhile (\<lambda>c. c \<noteq> CHR 0x00) s"

definition strlen :: "string \<Rightarrow> nat" where
  "strlen s = length (cstr s)"

definition isdigit :: "char \<Rightarrow> bool" where
  "isdigit c = (48 \<le> (of_char c :: nat) \<and> (of_char c :: nat) \<le> 57)"

text \<open>
  The digit loops of \<open>parse_special_token\<close>:
  \<^verbatim>\<open>while (text[idx] >= '0' && text[idx] <= '9' && nb < (int)sizeof(numBuf)-1) numBuf[nb++] = text[idx++];\<close>
  with a 32 byte buffer: the longest run of digits from \<open>idx\<close>, cut at 31 characters.
\<close>

definition read_digits :: "string \<Rightarrow> nat \<Rightarrow> string" where
  "read_digits text idx = takeWhile isdigit (take 31 (drop idx text))"

definition decimal :: "string \<Rightarrow> nat" where
  "decimal ds = foldl (\<lambda>v c. 10 * v + ((of_char c :: nat) - 48)) 0 ds"

text \<open>
  \<open>atoi\<close> on a string of digits (the only strings the scanner passes to it). For a value
  that fits an \<open>int\<close> it is that value; beyond, the C standard leaves the result open and
  glibc computes \<open>(int) strtol(s, NULL, 10)\<close>: \<open>strtol\<close> saturates at \<open>LONG_MAX\<close>
  (\<open>2^63 - 1\<close>) and the cast keeps the low 32 bits as a two's complement number. The empty
  string gives 0.
\<close>

definition atoi :: "string \<Rightarrow> int" where
  "atoi ds =
     (let v = int (min (decimal ds) 9223372036854775807) mod 4294967296
      in if v < 2147483648 then v else v - 4294967296)"

section \<open>The environment: X display, curses input, log\<close>

type_synonym KeySym = nat
type_synonym KeyCode = nat

text \<open>Key symbols of \<open>X11/keysymdef.h\<close> and \<open>X11/X.h\<close>.\<close>

definition NoSymbol :: KeySym where "NoSymbol = 0"
definition XK_Up :: KeySym where "XK_Up = 0xff52"
definition XK_Down :: KeySym where "XK_Down = 0xff54"
definition XK_Left :: KeySym where "XK_Left = 0xff51"
definition XK_Right :: KeySym where "XK_Right = 0xff53"
definition XK_Return :: KeySym where "XK_Return = 0xff0d"
definition XK_Shift_L :: KeySym where "XK_Shift_L = 0xffe1"
definition XK_Control_L :: KeySym where "XK_Control_L = 0xffe3"
definition XK_Alt_L :: KeySym where "XK_Alt_L = 0xffe9"
definition XK_space :: KeySym where "XK_space = 0x20"

text \<open>Key codes of \<open>ncurses.h\<close>: \<open>ERR\<close>, and \<open>KEY_F(n) = KEY_F0 + n\<close> with \<open>KEY_F0 = 0410\<close>.\<close>

definition ERR :: int where "ERR = - 1"
definition KEY_F :: "int \<Rightarrow> int" where "KEY_F n = 264 + n"

text \<open>
  The X side, reached through \<open>dpy\<close>: the two lookups of Xlib the program calls. Both
  return 0 (\<open>NoSymbol\<close>, no key code) when they fail.
\<close>

record Display =
  XKeysymToKeycode :: "KeySym \<Rightarrow> KeyCode"
  XStringToKeysym :: "string \<Rightarrow> KeySym"

datatype fmt_arg = ArgInt int | ArgHex nat | ArgChr char | ArgStr string

text \<open>
  What the program does to the outside, in order: a line given to \<open>add_log\<close> (its format
  string and arguments), a synthetic key event (key code, \<open>True\<close> for press), a sleep in
  microseconds.
\<close>

datatype event =
    Log string "fmt_arg list"
  | XTestFakeKeyEvent KeyCode bool
  | Usleep nat

text \<open>
  The globals and the terminal. \<open>g_messageCount\<close> is the length of \<open>g_messages\<close>.
  \<open>input\<close> is what successive calls of \<open>getch()\<close> return in non-blocking mode: a key
  code, or \<open>ERR\<close> when no key is pending at that moment (and \<open>ERR\<close> for ever once the list
  is used up). \<open>nodelay\<close> is the mode \<open>nodelay(stdscr, _)\<close> last set.
\<close>

record state =
  g_stopRequested :: bool
  g_messages :: "string list"
  nodelay :: bool
  input :: "int list"
  trace :: "event list"

definition emit :: "event \<Rightarrow> state \<Rightarrow> state" where
  "emit e st = st\<lparr>trace := trace st @ [e]\<rparr>"

definition add_log :: "string \<Rightarrow> fmt_arg list \<Rightarrow> state \<Rightarrow> state" where
  "add_log fmt args st = emit (Log fmt args) st"

definition usleep :: "nat \<Rightarrow> state \<Rightarrow> state" where
  "usleep us st = emit (Usleep us) st"

section \<open>Key injection\<close>

definition pressKeyDown :: "Display \<Rightarrow> KeySym \<Rightarrow> state \<Rightarrow> state" where
  "pressKeyDown dpy ks st =
     (let kc = XKeysymToKeycode dpy ks
      in if kc = 0
         then add_log ''WARN: XKeysymToKeycode failed for KeySym=0x%lx (DOWN)'' [ArgHex ks] st
         else emit (XTestFakeKeyEvent kc True) st)"

definition pressKeyUp :: "Display \<Rightarrow> KeySym \<Rightarrow> state \<Rightarrow> state" where
  "pressKeyUp dpy ks st =
     (let kc = XKeysymToKeycode dpy ks
      in if kc = 0
         then add_log ''WARN: XKeysymToKeycode failed for KeySym=0x%lx (UP)'' [ArgHex ks] st
         else emit (XTestFakeKeyEvent kc False) st)"

definition pressKey :: "Display \<Rightarrow> KeySym \<Rightarrow> state \<Rightarrow> state" where
  "pressKey dpy ks st = usleep 30000 (pressKeyUp dpy ks (usleep 30000 (pressKeyDown dpy ks st)))"

text \<open>
  The \<open>switch\<close> of \<open>map_char_to_keysym\<close>: the Latin-1 key symbols of the punctuation
  characters (each equal to the character's code), and \<open>XK_Return\<close> for newline and
  carriage return.
\<close>

definition punct_table :: "(char \<times> KeySym) list" where
  "punct_table =
     [(CHR '' '', XK_space), (CHR ''!'', 0x21), (CHR 0x22, 0x22), (CHR ''#'', 0x23),
      (CHR ''$'', 0x24), (CHR ''%'', 0x25), (CHR ''&'', 0x26), (CHR 0x27, 0x27),
      (CHR ''('', 0x28), (CHR '')'', 0x29), (CHR ''*'', 0x2a), (CHR ''+'', 0x2b),
      (CHR '','', 0x2c), (CHR ''-'', 0x2d), (CHR ''.'', 0x2e), (CHR ''/'', 0x2f),
      (CHR '':'', 0x3a), (CHR '';'', 0x3b), (CHR ''<'', 0x3c), (CHR ''='', 0x3d),
      (CHR ''>'', 0x3e), (CHR ''?'', 0x3f), (CHR ''@'', 0x40), (CHR ''['', 0x5b),
      (CHR 0x5c, 0x5c), (CHR '']'', 0x5d), (CHR ''^'', 0x5e), (CHR ''_'', 0x5f),
      (CHR ''`'', 0x60), (CHR ''{'', 0x7b), (CHR ''|'', 0x7c), (CHR ''}'', 0x7d),
      (CHR ''~'', 0x7e), (CHR 0x0a, XK_Return), (CHR 0x0d, XK_Return)]"

definition map_char_to_keysym :: "Display \<Rightarrow> char \<Rightarrow> KeySym" where
  "map_char_to_keysym dpy c =
     (case map_of punct_table c of
        Some ks \<Rightarrow> ks
      | None \<Rightarrow> XStringToKeysym dpy [c])"

text \<open>\<open>(int)c\<close> for the \<open>char\<close> of the platform (signed, 8 bits).\<close>

definition int_of_char :: "char \<Rightarrow> int" where
  "int_of_char c = (if (of_char c :: int) < 128 then of_char c else of_char c - 256)"

definition send_char :: "Display \<Rightarrow> char \<Rightarrow> state \<Rightarrow> state" where
  "send_char dpy c st =
     (let ks = map_char_to_keysym dpy c
      in if ks = NoSymbol
         then add_log (''WARN: No KeySym for '' @ [CHR 0x27] @ ''%c'' @ [CHR 0x27] @ '' (ASCII %d)'')
                [ArgChr c, ArgInt (int_of_char c)] st
         else pressKey dpy ks st)"

section \<open>The token scanner\<close>

record TokenAction =
  sym_key :: KeySym
  holdMs :: int
  expandBuf :: string
  useExpand :: int

text \<open>\<open>memset(&action, 0, sizeof(action))\<close>.\<close>

definition zero_action :: TokenAction where
  "zero_action = \<lparr>sym_key = 0, holdMs = 0, expandBuf = [], useExpand = 0\<rparr>"

definition key_table :: "(string \<times> KeySym) list" where
  "key_table =
     [(''up'', XK_Up), (''down'', XK_Down), (''left'', XK_Left), (''right'', XK_Right),
      (''enter'', XK_Return), (''shift'', XK_Shift_L), (''ctrl'', XK_Control_L),
      (''alt'', XK_Alt_L), (''space'', XK_space)]"

text \<open>
  The loop over \<open>table[]\<close> in \<open>parse_special_token\<close>. The first entry whose name is a
  prefix of the text after the brace decides: the loop returns in each of its branches.
\<close>

fun match_table ::
  "(string \<times> KeySym) list \<Rightarrow> string \<Rightarrow> TokenAction \<Rightarrow> nat \<times> TokenAction" where
  "match_table [] text out = (0, out)"
| "match_table ((cmd, ks) # rest) text out =
     (if take (length cmd) (drop 1 text) = cmd then
        (let idx_after = 1 + length cmd
         in if char_at text idx_after = CHR ''}'' then
              (idx_after + 1, out\<lparr>sym_key := ks, holdMs := 0, useExpand := 0\<rparr>)
            else if char_at text idx_after = CHR '':'' then
              (let holdBuf = read_digits text (idx_after + 1);
                   digits_start = idx_after + 1 + length holdBuf
               in if char_at text digits_start = CHR ''}'' then
                    (digits_start + 1,
                     out\<lparr>sym_key := ks, holdMs := atoi holdBuf, useExpand := 0\<rparr>)
                  else (0, out))
            else (0, out))
      else match_table rest text out)"

text \<open>
  \<open>parse_special_token(text, out)\<close>: the number of characters of the token at the start
  of \<open>text\<close> (0 when there is none), the record \<open>out\<close> as the call leaves it, and the
  state (the scanner reads the message table and writes log lines).
  \<open>strncpy(out->expandBuf, g_messages[msgIndex-1], sizeof(out->expandBuf)-1)\<close> copies at
  most 2047 characters of the message.
\<close>

definition parse_special_token ::
  "string \<Rightarrow> TokenAction \<Rightarrow> state \<Rightarrow> nat \<times> TokenAction \<times> state" where
  "parse_special_token text out st =
     (if char_at text 0 \<noteq> CHR ''{'' then (0, out, st)
      else if take 8 text = ''{message'' then
        (let numBuf = read_digits text 8;
             idx = 8 + length numBuf
         in if char_at text idx = CHR ''}'' then
              (let msgIndex = atoi numBuf
               in if msgIndex < 1 \<or> msgIndex > int (length (g_messages st)) then
                    (0, out,
                     add_log ''WARN: {message%d} out of range (1..%d)''
                       [ArgInt msgIndex, ArgInt (int (length (g_messages st)))] st)
                  else
                    (let out' = out\<lparr>sym_key := 0, holdMs := 0, useExpand := 1,
                                   expandBuf := take 2047 (cstr (g_messages st ! (nat msgIndex - 1)))\<rparr>
                     in (idx + 1, out',
                         add_log (''SIM: Found token {message%s} => line %d: '' @ [CHR 0x22] @ ''%s'' @ [CHR 0x22])
                           [ArgStr numBuf, ArgInt msgIndex, ArgStr (expandBuf out')] st)))
            else (0, out, st))
      else (case match_table key_table text out of (consumed, out') \<Rightarrow> (consumed, out', st)))"

section \<open>Polling the keyboard\<close>

text \<open>
  The loop \<^verbatim>\<open>ch = getch(); while (ch != ERR) { ...; ch = getch(); }\<close> over the
  pending keys: F2 sets the stop flag and logs, F1 only logs, any other key is dropped.
  The two log lines differ from one place of the program to the other.
\<close>

fun drain_keys :: "string \<Rightarrow> string \<Rightarrow> int list \<Rightarrow> state \<Rightarrow> state" where
  "drain_keys f2 f1 [] st = st\<lparr>input := []\<rparr>"
| "drain_keys f2 f1 (ch # rest) st =
     (if ch = ERR then st\<lparr>input := rest\<rparr>
      else if ch = KEY_F 2 then drain_keys f2 f1 rest ((add_log f2 [] st)\<lparr>g_stopRequested := True\<rparr>)
      else if ch = KEY_F 1 then drain_keys f2 f1 rest (add_log f1 [] st)
      else drain_keys f2 f1 rest st)"

text \<open>
  With \<open>nodelay(stdscr, FALSE)\<close> in force \<open>getch()\<close> waits for a key and does not return
  \<open>ERR\<close>: the loop above never ends. That is the result \<open>None\<close>.
\<close>

definition poll_getch :: "string \<Rightarrow> string \<Rightarrow> state \<Rightarrow> state option" where
  "poll_getch f2 f1 st = (if nodelay st then Some (drain_keys f2 f1 (input st) st) else None)"

section \<open>The script interpreter\<close>

text \<open>
  The hold of \<open>parse_and_type\<close>:
  \<^verbatim>\<open>while (remain > 0 && !g_stopRequested) { usleep(step * 1000); remain -= step; <poll>; if (g_stopRequested) break; }\<close>
\<close>

function hold_wait :: "int \<Rightarrow> state \<Rightarrow> state option" where
  "hold_wait remain st =
     (if remain > 0 \<and> \<not> g_stopRequested st then
        (case poll_getch ''F2 pressed => STOP'' ''F1 pressed => resetting fields (mid hold)''
                (usleep (50 * 1000) st) of
           None \<Rightarrow> None
         | Some st' \<Rightarrow> if g_stopRequested st' then Some st' else hold_wait (remain - 50) st')
      else Some st)"
  by pat_completeness auto
termination
  by (relation "measure (\<lambda>(remain, st). nat remain)") auto

text \<open>The branch of \<open>parse_and_type\<close> for a token that is a single key: hold or quick press.\<close>

definition key_action :: "Display \<Rightarrow> TokenAction \<Rightarrow> state \<Rightarrow> state option" where
  "key_action dpy action st =
     (if holdMs action > 0 then
        (case hold_wait (holdMs action)
                (pressKeyDown dpy (sym_key action)
                   (add_log ''SIM: Holding KeySym=0x%lx for %d ms''
                      [ArgHex (sym_key action), ArgInt (holdMs action)] st)) of
           None \<Rightarrow> None
         | Some st' \<Rightarrow> Some (usleep 30000 (pressKeyUp dpy (sym_key action) st')))
      else
        Some (pressKey dpy (sym_key action)
                (add_log ''SIM: Quick press KeySym=0x%lx'' [ArgHex (sym_key action)] st)))"

text \<open>
  The \<open>while (text[i] && !g_stopRequested)\<close> loop of \<open>parse_and_type\<close>, from index \<open>i\<close>;
  it returns the index at which it stops together with the state. The first argument bounds
  the nesting of \<open>parse_and_type\<close> calls that is still allowed: the splice branch runs the
  whole of \<open>parse_and_type\<close> on the message (\<open>nodelay(stdscr, TRUE)\<close>, the loop from 0,
  \<open>nodelay(stdscr, FALSE)\<close>) with one level less. \<open>None\<close> is a run that does not return:
  the nesting bound is exceeded, or a poll never ends.
\<close>

function pt_loop :: "nat \<Rightarrow> Display \<Rightarrow> string \<Rightarrow> nat \<Rightarrow> state \<Rightarrow> (nat \<times> state) option" where
  "pt_loop 0 dpy text i st = None"
| "pt_loop (Suc d) dpy text i st =
     (if char_at text i \<noteq> CHR 0x00 \<and> \<not> g_stopRequested st then
        (case poll_getch ''F2 pressed => STOP requested''
                ''F1 pressed => resetting fields (in parse_and_type)'' st of
           None \<Rightarrow> None
         | Some st1 \<Rightarrow>
             if g_stopRequested st1 then Some (i, st1)
             else
               (case parse_special_token (drop i text) zero_action st1 of
                  (consumed, action, st2) \<Rightarrow>
                    if consumed > 0 then
                      (if useExpand action \<noteq> 0 then
                         (case pt_loop d dpy (expandBuf action) 0
                                 ((add_log (''SIM: Insert line => '' @ [CHR 0x22] @ ''%s'' @ [CHR 0x22])
                                     [ArgStr (expandBuf action)] st2)\<lparr>nodelay := True\<rparr>) of
                            None \<Rightarrow> None
                          | Some (j, st3) \<Rightarrow>
                              pt_loop (Suc d) dpy text (i + consumed) (st3\<lparr>nodelay := False\<rparr>))
                       else
                         (case key_action dpy action st2 of
                            None \<Rightarrow> None
                          | Some st3 \<Rightarrow> pt_loop (Suc d) dpy text (i + consumed) st3))
                    else
                      pt_loop (Suc d) dpy text (i + 1)
                        (usleep 30000
                           (send_char dpy (char_at text i)
                              (add_log (''SIM: Sending char '' @ [CHR 0x27] @ ''%c'' @ [CHR 0x27])
                                 [ArgChr (char_at text i)] st2)))))
      else Some (i, st))"
  by pat_completeness auto
termination
proof (relation "measures [\<lambda>(d, dpy, text, i, st). d, \<lambda>(d, dpy, text, i, st). length text - i]",
       goal_cases)
  case 1
  show ?case by simp
next
  case 2
  then show ?case by simp
next
  case 3
  then show ?case by (auto simp: char_at_def split: if_splits)
next
  case 4
  then show ?case by (auto simp: char_at_def split: if_splits)
next
  case 5
  then show ?case by (auto simp: char_at_def split: if_splits)
qed

definition parse_and_type :: "nat \<Rightarrow> Display \<Rightarrow> string \<Rightarrow> state \<Rightarrow> state option" where
  "parse_and_type d dpy text st =
     (case pt_loop d dpy text 0 (st\<lparr>nodelay := True\<rparr>) of
        None \<Rightarrow> None
      | Some (i, st') \<Rightarrow> Some (st'\<lparr>nodelay := False\<rparr>))"

definition expand_and_parse :: "nat \<Rightarrow> Display \<Rightarrow> string \<Rightarrow> state \<Rightarrow> state option" where
  "expand_and_parse d dpy chunk st = parse_and_type d dpy chunk st"

section \<open>The run controller\<close>

text \<open>
  The two delay loops of \<open>simulate_typing\<close>:
  \<^verbatim>\<open>while (remain > 0 && !g_stopRequested) { usleep(step * 1000); remain -= step; <poll> }\<close>
\<close>

function delay_wait :: "string \<Rightarrow> string \<Rightarrow> int \<Rightarrow> state \<Rightarrow> state option" where
  "delay_wait f2 f1 remain st =
     (if remain > 0 \<and> \<not> g_stopRequested st then
        (case poll_getch f2 f1 (usleep (50 * 1000) st) of
           None \<Rightarrow> None
         | Some st' \<Rightarrow> delay_wait f2 f1 (remain - 50) st')
      else Some st)"
  by pat_completeness auto
termination
  by (relation "measure (\<lambda>(f2, f1, remain, st). nat remain)") auto

text \<open>
  The \<open>for (int l = 0; l < loops; l++)\<close> loop of \<open>simulate_typing\<close>, from iteration \<open>l\<close>;
  a \<open>break\<close> returns the state.
\<close>

function for_loops ::
  "nat \<Rightarrow> Display \<Rightarrow> string \<Rightarrow> int \<Rightarrow> int \<Rightarrow> int \<Rightarrow> state \<Rightarrow> state option" where
  "for_loops d dpy text loops loopDelay_ms l st =
     (if l < loops then
        (if g_stopRequested st then Some st
         else
           (case parse_and_type d dpy text
                   (add_log ''SIM: Loop %d/%d begin'' [ArgInt (l + 1), ArgInt loops] st) of
              None \<Rightarrow> None
            | Some st1 \<Rightarrow>
                if g_stopRequested st1 then
                  Some (add_log ''SIM: Loop interrupted by F2 at loop %d/%d''
                          [ArgInt (l + 1), ArgInt loops] st1)
                else
                  (let st2 = add_log ''SIM: Loop %d/%d done'' [ArgInt (l + 1), ArgInt loops] st1
                   in if l < loops - 1 \<and> loopDelay_ms > 0 then
                        (case delay_wait ''F2 pressed => STOP requested (between loops)''
                                ''F1 pressed => resetting fields (between loops)'' loopDelay_ms
                                ((add_log ''SIM: Sleeping %d ms before next loop...''
                                    [ArgInt loopDelay_ms] st2)\<lparr>nodelay := True\<rparr>) of
                           None \<Rightarrow> None
                         | Some st3 \<Rightarrow>
                             (let st4 = st3\<lparr>nodelay := False\<rparr>
                              in if g_stopRequested st4 then
                                   Some (add_log ''SIM: Aborted between loops at loop %d/%d''
                                           [ArgInt (l + 1), ArgInt loops] st4)
                                 else for_loops d dpy text loops loopDelay_ms (l + 1) st4))
                      else for_loops d dpy text loops loopDelay_ms (l + 1) st2)))
      else Some st)"
  by pat_completeness auto
termination
  by (relation "measure (\<lambda>(d, dpy, text, loops, loopDelay_ms, l, st). nat (loops - l))") auto

text \<open>What \<open>simulate_typing\<close> does once it has reset the stop flag.\<close>

definition run_loops ::
  "nat \<Rightarrow> Display \<Rightarrow> string \<Rightarrow> int \<Rightarrow> int \<Rightarrow> state \<Rightarrow> state option" where
  "run_loops d dpy text loops loopDelay_ms st =
     (case for_loops d dpy text loops loopDelay_ms 0 st of
        None \<Rightarrow> None
      | Some st' \<Rightarrow>
          Some (if \<not> g_stopRequested st'
                then add_log ''SIM: All loops completed successfully.'' [] st'
                else add_log ''SIM: Stopped by user (F2).'' [] st'))"

definition after_reset ::
  "nat \<Rightarrow> Display \<Rightarrow> string \<Rightarrow> int \<Rightarrow> int \<Rightarrow> int \<Rightarrow> state \<Rightarrow> state option" where
  "after_reset d dpy text loops startDelay_ms loopDelay_ms st =
     (if startDelay_ms > 0 then
        (case delay_wait ''F2 pressed => STOP requested (before we start typing)''
                ''F1 pressed => resetting fields (pre-typing)'' startDelay_ms
                ((add_log ''SIM: Sleeping %d ms before typing...'' [ArgInt startDelay_ms] st)
                   \<lparr>nodelay := True\<rparr>) of
           None \<Rightarrow> None
         | Some st1 \<Rightarrow>
             (let st2 = st1\<lparr>nodelay := False\<rparr>
              in if g_stopRequested st2
                 then Some (add_log ''SIM: Aborted before typing began.'' [] st2)
                 else run_loops d dpy text loops loopDelay_ms st2))
      else run_loops d dpy text loops loopDelay_ms st)"

definition simulate_typing ::
  "nat \<Rightarrow> Display \<Rightarrow> string \<Rightarrow> int \<Rightarrow> int \<Rightarrow> int \<Rightarrow> state \<Rightarrow> state option" where
  "simulate_typing d dpy text loops startDelay_ms loopDelay_ms st =
     after_reset d dpy text loops startDelay_ms loopDelay_ms
       ((add_log (''SIM: StartDelay=%d, LoopDelay=%d, Loops=%d, text='' @ [CHR 0x27] @ ''%s'' @ [CHR 0x27])
           [ArgInt startDelay_ms, ArgInt loopDelay_ms, ArgInt loops, ArgStr (cstr text)] st)
          \<lparr>g_stopRequested := False\<rparr>)"

declare pt_loop.simps [simp del] hold_wait.simps [simp del] delay_wait.simps [simp del]
  for_loops.simps [simp del]

section \<open>Auxiliary definitions for the proofs\<close>

text \<open>
  The body of the \<open>if (strncmp(&text[1], cmd, c_len) == 0)\<close> block of the scanner, for a
  table entry with key \<open>ks\<close> and a name of \<open>c_len\<close> characters.
\<close>

definition key_hit :: "KeySym \<Rightarrow> nat \<Rightarrow> string \<Rightarrow> TokenAction \<Rightarrow> nat \<times> TokenAction" where
  "key_hit ks c_len text out =
     (let idx_after = 1 + c_len
      in if char_at text idx_after = CHR ''}'' then
           (idx_after + 1, out\<lparr>sym_key := ks, holdMs := 0, useExpand := 0\<rparr>)
         else if char_at text idx_after = CHR '':'' then
           (let holdBuf = read_digits text (idx_after + 1);
                digits_start = idx_after + 1 + length holdBuf
            in if char_at text digits_start = CHR ''}'' then
                 (digits_start + 1,
                  out\<lparr>sym_key := ks, holdMs := atoi holdBuf, useExpand := 0\<rparr>)
               else (0, out))
         else (0, out))"

text \<open>
  A display and a state for the concrete runs below: every key symbol but \<open>NoSymbol\<close> has
  a key code, and \<open>XStringToKeysym\<close> knows the lower case letters and the digits.
\<close>

definition ex_dpy :: Display where
  "ex_dpy =
     \<lparr>XKeysymToKeycode = (\<lambda>ks. if ks = 0 then 0 else ks mod 256 + 8),
      XStringToKeysym =
        (\<lambda>s. case s of
               [c] \<Rightarrow> if isdigit c \<or> (97 \<le> (of_char c :: nat) \<and> (of_char c :: nat) \<le> 122)
                      then of_char c else 0
             | _ \<Rightarrow> 0)\<rparr>"

definition ex_state :: "string list \<Rightarrow> int list \<Rightarrow> state" where
  "ex_state msgs keys =
     \<lparr>g_stopRequested = False, g_messages = msgs, nodelay = False, input = keys, trace = []\<rparr>"

text \<open>
  The events of the key injection functions, which change nothing but the trace.
\<close>

definition emits :: "event list \<Rightarrow> state \<Rightarrow> state" where
  "emits es st = st\<lparr>trace := trace st @ es\<rparr>"

definition down_events :: "Display \<Rightarrow> KeySym \<Rightarrow> event list" where
  "down_events dpy ks =
     (if XKeysymToKeycode dpy ks = 0
      then [Log ''WARN: XKeysymToKeycode failed for KeySym=0x%lx (DOWN)'' [ArgHex ks]]
      else [XTestFakeKeyEvent (XKeysymToKeycode dpy ks) True])"

definition up_events :: "Display \<Rightarrow> KeySym \<Rightarrow> event list" where
  "up_events dpy ks =
     (if XKeysymToKeycode dpy ks = 0
      then [Log ''WARN: XKeysymToKeycode failed for KeySym=0x%lx (UP)'' [ArgHex ks]]
      else [XTestFakeKeyEvent (XKeysymToKeycode dpy ks) False])"

definition tap_events :: "Display \<Rightarrow> KeySym \<Rightarrow> event list" where
  "tap_events dpy ks = down_events dpy ks @ [Usleep 30000] @ up_events dpy ks @ [Usleep 30000]"

definition send_events :: "Display \<Rightarrow> char \<Rightarrow> event list" where
  "send_events dpy c =
     (if map_char_to_keysym dpy c = NoSymbol
      then [Log (''WARN: No KeySym for '' @ [CHR 0x27] @ ''%c'' @ [CHR 0x27] @ '' (ASCII %d)'')
              [ArgChr c, ArgInt (int_of_char c)]]
      else tap_events dpy (map_char_to_keysym dpy c))"

abbreviation poll_top :: "state \<Rightarrow> state option" where
  "poll_top st \<equiv> poll_getch ''F2 pressed => STOP requested''
      ''F1 pressed => resetting fields (in parse_and_type)'' st"

fun noise :: "event \<Rightarrow> bool" where
  "noise (Log f args) = (args = [])"
| "noise (Usleep n) = True"
| "noise (XTestFakeKeyEvent kc b) = False"

fun is_key :: "event \<Rightarrow> bool" where
  "is_key (XTestFakeKeyEvent kc b) = True"
| "is_key e = False"

definition key_events :: "event list \<Rightarrow> event list" where
  "key_events tr = filter is_key tr"

text \<open>What a step can do to the state: the trace grows, the stop flag is never cleared,
  the message table stays, the pending keys are among those that were pending.\<close>

definition grows :: "state \<Rightarrow> state \<Rightarrow> bool" where
  "grows st st' \<longleftrightarrow>
     (\<exists>ws. trace st' = trace st @ ws) \<and> g_messages st' = g_messages st \<and>
     (g_stopRequested st \<longrightarrow> g_stopRequested st') \<and> set (input st') \<subseteq> set (input st)"

inductive run :: "Display \<Rightarrow> string \<Rightarrow> nat \<Rightarrow> state \<Rightarrow> nat \<Rightarrow> state \<Rightarrow> bool"
  for dpy :: Display where
  stop: "char_at text i = CHR 0x00 \<or> g_stopRequested st \<Longrightarrow> run dpy text i st i st"
| cancel: "char_at text i \<noteq> CHR 0x00 \<Longrightarrow> \<not> g_stopRequested st \<Longrightarrow> poll_top st = Some st1 \<Longrightarrow>
     g_stopRequested st1 \<Longrightarrow> run dpy text i st i st1"
| literal: "char_at text i \<noteq> CHR 0x00 \<Longrightarrow> \<not> g_stopRequested st \<Longrightarrow> poll_top st = Some st1 \<Longrightarrow>
     \<not> g_stopRequested st1 \<Longrightarrow>
     parse_special_token (drop i text) zero_action st1 = (0, action, st2) \<Longrightarrow>
     run dpy text (i + 1)
       (usleep 30000 (send_char dpy (char_at text i)
          (add_log (''SIM: Sending char '' @ [CHR 0x27] @ ''%c'' @ [CHR 0x27])
             [ArgChr (char_at text i)] st2))) j st' \<Longrightarrow>
     run dpy text i st j st'"
| key: "char_at text i \<noteq> CHR 0x00 \<Longrightarrow> \<not> g_stopRequested st \<Longrightarrow> poll_top st = Some st1 \<Longrightarrow>
     \<not> g_stopRequested st1 \<Longrightarrow>
     parse_special_token (drop i text) zero_action st1 = (consumed, action, st2) \<Longrightarrow>
     0 < consumed \<Longrightarrow> useExpand action = 0 \<Longrightarrow> key_action dpy action st2 = Some st3 \<Longrightarrow>
     run dpy text (i + consumed) st3 j st' \<Longrightarrow>
     run dpy text i st j st'"
| splice: "char_at text i \<noteq> CHR 0x00 \<Longrightarrow> \<not> g_stopRequested st \<Longrightarrow> poll_top st = Some st1 \<Longrightarrow>
     \<not> g_stopRequested st1 \<Longrightarrow>
     parse_special_token (drop i text) zero_action st1 = (consumed, action, st2) \<Longrightarrow>
     0 < consumed \<Longrightarrow> useExpand action \<noteq> 0 \<Longrightarrow>
     run dpy (expandBuf action) 0
       ((add_log (''SIM: Insert line => '' @ [CHR 0x22] @ ''%s'' @ [CHR 0x22])
           [ArgStr (expandBuf action)] st2)\<lparr>nodelay := True\<rparr>) k st3 \<Longrightarrow>
     run dpy text (i + consumed) (st3\<lparr>nodelay := False\<rparr>) j st' \<Longrightarrow>
     run dpy text i st j st'"

abbreviation loop_delay :: "int \<Rightarrow> state \<Rightarrow> state option" where
  "loop_delay loopDelay_ms st \<equiv>
     delay_wait ''F2 pressed => STOP requested (between loops)''
       ''F1 pressed => resetting fields (between loops)'' loopDelay_ms
       ((add_log ''SIM: Sleeping %d ms before next loop...'' [ArgInt loopDelay_ms] st)
          \<lparr>nodelay := True\<rparr>)"

abbreviation start_delay :: "int \<Rightarrow> state \<Rightarrow> state option" where
  "start_delay startDelay_ms st \<equiv>
     delay_wait ''F2 pressed => STOP requested (before we start typing)''
       ''F1 pressed => resetting fields (pre-typing)'' startDelay_ms
       ((add_log ''SIM: Sleeping %d ms before typing...'' [ArgInt startDelay_ms] st)
          \<lparr>nodelay := True\<rparr>)"

text \<open>The characters of a token: none is NUL, and none but the first is an opening brace.\<close>

definition plain :: "char \<Rightarrow> bool" where
  "plain c \<longleftrightarrow> c \<noteq> CHR 0x00 \<and> c \<noteq> CHR ''{''"

definition token_ok :: "string \<Rightarrow> nat \<Rightarrow> bool" where
  "token_ok t c \<longleftrightarrow> (\<forall>k < c. char_at t k \<noteq> CHR 0x00 \<and> (0 < k \<longrightarrow> char_at t k \<noteq> CHR ''{''))"

text \<open>
  Scanning alone: the positions the loop of the interpreter stops at in a text, each with
  the advance it makes from there (the length of the token the scanner finds, or 1), for
  the message table of a state.
\<close>

definition advance :: "state \<Rightarrow> string \<Rightarrow> nat \<Rightarrow> nat" where
  "advance st text i =
     (let consumed = fst (parse_special_token (drop i text) zero_action st)
      in if 0 < consumed then consumed else 1)"

function scan_from :: "state \<Rightarrow> string \<Rightarrow> nat \<Rightarrow> (nat \<times> nat) list" where
  "scan_from st text i =
     (if char_at text i \<noteq> CHR 0x00
      then (i, advance st text i) # scan_from st text (i + advance st text i)
      else [])"
  by pat_completeness auto
termination
  by (relation "measure (\<lambda>(st, text, i). length text - i)")
     (auto simp: advance_def Let_def char_at_def split: if_splits)

text \<open>A state in which polling works and no cancellation is set or pending.\<close>

definition calm :: "state \<Rightarrow> bool" where
  "calm st \<longleftrightarrow> nodelay st \<and> \<not> g_stopRequested st \<and> KEY_F 2 \<notin> set (input st)"

text \<open>The characters given to \<open>send_char\<close>, read off the log lines that announce them.\<close>

fun sent_char :: "event \<Rightarrow> string" where
  "sent_char (Log f args) =
     (case args of
        [ArgChr c] \<Rightarrow> if f = ''SIM: Sending char '' @ [CHR 0x27] @ ''%c'' @ [CHR 0x27] then [c] else []
      | _ \<Rightarrow> [])"
| "sent_char e = []"

definition typed :: "event list \<Rightarrow> string" where
  "typed tr = concat (map sent_char tr)"

text \<open>
  The events of typing literal characters: sleeps, key events, log lines without arguments
  (the lines of a poll), and the lines about a character or a rejected token.
\<close>

fun lit_event :: "event \<Rightarrow> bool" where
  "lit_event (Log f args) =
     (args = [] \<or>
      f \<in> {''SIM: Sending char '' @ [CHR 0x27] @ ''%c'' @ [CHR 0x27],
           ''WARN: No KeySym for '' @ [CHR 0x27] @ ''%c'' @ [CHR 0x27] @ '' (ASCII %d)'',
           ''WARN: {message%d} out of range (1..%d)'',
           ''WARN: XKeysymToKeycode failed for KeySym=0x%lx (DOWN)'',
           ''WARN: XKeysymToKeycode failed for KeySym=0x%lx (UP)''})"
| "lit_event e = True"

definition lit_trace :: "Display \<Rightarrow> string \<Rightarrow> event list \<Rightarrow> bool" where
  "lit_trace dpy cs ws \<longleftrightarrow>
     typed ws = cs \<and>
     key_events ws = concat (map (\<lambda>c. key_events (send_events dpy c)) cs) \<and>
     (\<forall>e \<in> set ws. lit_event e)"

text \<open>No cancellation set or pending (whatever the mode of \<open>getch\<close>).\<close>

definition uncancelled :: "state \<Rightarrow> bool" where
  "uncancelled st \<longleftrightarrow> \<not> g_stopRequested st \<and> KEY_F 2 \<notin> set (input st)"

text \<open>The log lines of a format that carry arguments.\<close>

fun is_log :: "string \<Rightarrow> event \<Rightarrow> bool" where
  "is_log fmt (Log f args) = (f = fmt \<and> args \<noteq> [])"
| "is_log fmt e = False"

definition count_log :: "string \<Rightarrow> event list \<Rightarrow> nat" where
  "count_log fmt tr = length (filter (is_log fmt) tr)"

text \<open>What \<open>n\<close> iterations over a script without directives leave in the trace.\<close>

definition iter_trace :: "Display \<Rightarrow> string \<Rightarrow> int \<Rightarrow> nat \<Rightarrow> event list \<Rightarrow> bool" where
  "iter_trace dpy text loopDelay_ms n ws \<longleftrightarrow>
     typed ws = concat (replicate n (cstr text)) \<and>
     key_events ws =
       concat (replicate n (concat (map (\<lambda>c. key_events (send_events dpy c)) (cstr text)))) \<and>
     count_log ''SIM: Sleeping %d ms before next loop...'' ws = (if 0 < loopDelay_ms then n - 1 else 0) \<and>
     count_log ''SIM: Loop %d/%d begin'' ws = n"

text \<open>The state in which \<open>simulate_typing\<close> has logged its first line and reset the stop flag.\<close>

definition started :: "string \<Rightarrow> int \<Rightarrow> int \<Rightarrow> int \<Rightarrow> state \<Rightarrow> state" where
  "started text loops startDelay_ms loopDelay_ms st =
     (add_log (''SIM: StartDelay=%d, LoopDelay=%d, Loops=%d, text='' @ [CHR 0x27] @ ''%s'' @ [CHR 0x27])
        [ArgInt startDelay_ms, ArgInt loopDelay_ms, ArgInt loops, ArgStr (cstr text)] st)
       \<lparr>g_stopRequested := False\<rparr>"

text \<open>
  The \<open>for\<close> loop, started in \<open>st0\<close>, arrives at the head of iteration \<open>l\<close> (counted from 0)
  in state \<open>st\<close>: every iteration before ran to its end without cancellation, and so did the
  delay after it, when there was one.
\<close>

inductive loop_head ::
  "nat \<Rightarrow> Display \<Rightarrow> string \<Rightarrow> int \<Rightarrow> int \<Rightarrow> state \<Rightarrow> int \<Rightarrow> state \<Rightarrow> bool"
  for d :: nat and dpy :: Display and script :: string and loops :: int and loopDelay_ms :: int
    and st0 :: state where
  first: "loop_head d dpy script loops loopDelay_ms st0 0 st0"
| undelayed:
    "loop_head d dpy script loops loopDelay_ms st0 l st \<Longrightarrow> l < loops \<Longrightarrow> \<not> g_stopRequested st \<Longrightarrow>
     parse_and_type d dpy script
       (add_log ''SIM: Loop %d/%d begin'' [ArgInt (l + 1), ArgInt loops] st) = Some st1 \<Longrightarrow>
     \<not> g_stopRequested st1 \<Longrightarrow> \<not> (l < loops - 1 \<and> 0 < loopDelay_ms) \<Longrightarrow>
     loop_head d dpy script loops loopDelay_ms st0 (l + 1)
       (add_log ''SIM: Loop %d/%d done'' [ArgInt (l + 1), ArgInt loops] st1)"
| delayed:
    "loop_head d dpy script loops loopDelay_ms st0 l st \<Longrightarrow> l < loops \<Longrightarrow> \<not> g_stopRequested st \<Longrightarrow>
     parse_and_type d dpy script
       (add_log ''SIM: Loop %d/%d begin'' [ArgInt (l + 1), ArgInt loops] st) = Some st1 \<Longrightarrow>
     \<not> g_stopRequested st1 \<Longrightarrow> l < loops - 1 \<and> 0 < loopDelay_ms \<Longrightarrow>
     loop_delay loopDelay_ms
       (add_log ''SIM: Loop %d/%d done'' [ArgInt (l + 1), ArgInt loops] st1) = Some st3 \<Longrightarrow>
     \<not> g_stopRequested st3 \<Longrightarrow>
     loop_head d dpy script loops loopDelay_ms st0 (l + 1) (st3\<lparr>nodelay := False\<rparr>)"

text \<open>Whether a log line has the integer \<open>k\<close> among its arguments.\<close>

fun reports_index :: "event \<Rightarrow> int \<Rightarrow> bool" where
  "reports_index (Log f args) k = (ArgInt k \<in> set args)"
| "reports_index e k = False"

text \<open>
  The message token the scanner accepts at position \<open>i\<close> of a text, if any, with its length
  and the text it splices; that depends on the message table only. \<open>nested msgs n t\<close>: every
  message token of \<open>t\<close> is the last thing of \<open>t\<close>, and so on in the text it splices, at
  most \<open>n\<close> levels deep.
\<close>

definition splice_at :: "string list \<Rightarrow> string \<Rightarrow> nat \<Rightarrow> (nat \<times> string) option" where
  "splice_at msgs t i =
     (case parse_special_token (drop i t) zero_action (ex_state msgs []) of
        (consumed, action, st) \<Rightarrow>
          if 0 < consumed \<and> useExpand action \<noteq> 0 then Some (consumed, expandBuf action) else None)"

fun nested :: "string list \<Rightarrow> nat \<Rightarrow> string \<Rightarrow> bool" where
  "nested msgs 0 t = list_all (\<lambda>i. splice_at msgs t i = None) [0..<strlen t]"
| "nested msgs (Suc n) t =
     list_all (\<lambda>i. case splice_at msgs t i of
                      None \<Rightarrow> True
                    | Some (c, e) \<Rightarrow> char_at t (i + c) = CHR 0x00 \<and> nested msgs n e)
       [0..<strlen t]"

text \<open>
  One pass through the body of the \<open>while\<close> loop of \<open>parse_and_type\<close> at position \<open>i\<close>
  that comes back to the head of the loop: the poll, the call of the scanner on
  \<open>&text[i]\<close>, and the branch taken. The result is the amount added to \<open>i\<close> and the state
  at the head; there is none when the pass leaves the loop by \<open>break\<close> or a call in it does
  not return. \<open>passes\<close> makes one such pass at each position of a list in turn, each with
  the advance listed, from a state in which the loop condition holds.
\<close>

definition loop_body :: "nat \<Rightarrow> Display \<Rightarrow> string \<Rightarrow> nat \<Rightarrow> state \<Rightarrow> (nat \<times> state) option" where
  "loop_body d dpy text i st =
     (case poll_top st of
        None \<Rightarrow> None
      | Some st1 \<Rightarrow>
          if g_stopRequested st1 then None
          else
            (case parse_special_token (drop i text) zero_action st1 of
               (consumed, action, st2) \<Rightarrow>
                 if consumed > 0 then
                   (if useExpand action \<noteq> 0 then
                      map_option (Pair consumed)
                        (expand_and_parse d dpy (expandBuf action)
                           (add_log (''SIM: Insert line => '' @ [CHR 0x22] @ ''%s'' @ [CHR 0x22])
                              [ArgStr (expandBuf action)] st2))
                    else map_option (Pair consumed) (key_action dpy action st2))
                 else
                   Some (1, usleep 30000
                              (send_char dpy (char_at text i)
                                 (add_log (''SIM: Sending char '' @ [CHR 0x27] @ ''%c'' @ [CHR 0x27])
                                    [ArgChr (char_at text i)] st2)))))"

fun passes :: "nat \<Rightarrow> Display \<Rightarrow> string \<Rightarrow> (nat \<times> nat) list \<Rightarrow> state \<Rightarrow> state option" where
  "passes d dpy text [] st = Some st"
| "passes d dpy text ((p, a) # ps) st =
     (if char_at text p \<noteq> CHR 0x00 \<and> \<not> g_stopRequested st then
        (case loop_body d dpy text p st of
           None \<Rightarrow> None
         | Some (a', st') \<Rightarrow> if a' = a then passes d dpy text ps st' else None)
      else None)"

section \<open>Facts about C strings\<close>

lemma char_at_Cons_0 [simp]: "char_at (c # cs) 0 = c"
  by (simp add: char_at_def)

lemma char_at_Cons_Suc [simp]: "char_at (c # cs) (Suc k) = char_at cs k"
  by (simp add: char_at_def)

lemma char_at_Cons_numeral [simp]:
  "char_at (c # cs) (numeral n) = char_at cs (pred_numeral n)"
  by (simp add: char_at_def nth_Cons_numeral)

lemma char_at_Cons_1 [simp]: "char_at (c # cs) 1 = char_at cs 0"
  using char_at_Cons_Suc [of c cs 0] by simp

lemma char_at_Nil [simp]: "char_at [] k = CHR 0x00"
  by (simp add: char_at_def)

lemma char_at_append_length: "char_at (xs @ ys) (length xs + k) = char_at ys k"
  by (simp add: char_at_def nth_append)

lemma char_at_drop: "char_at (drop i t) k = char_at t (i + k)"
  by (auto simp: char_at_def)

section \<open>Facts about the scanner\<close>

lemma match_table_frame: "match_table tbl text out = (0, out') \<Longrightarrow> out' = out"
  by (induction tbl) (auto simp: Let_def split: if_splits)

lemma match_table_hit:
  "take (length cmd) (drop 1 text) = cmd \<Longrightarrow>
   match_table ((cmd, k) # tbl) text out = key_hit k (length cmd) text out"
  by (simp add: key_hit_def)

lemma match_table_skip:
  "take (length cmd) (drop 1 text) \<noteq> cmd \<Longrightarrow>
   match_table ((cmd, k) # tbl) text out = match_table tbl text out"
  by simp

lemma char_at_token: "char_at (CHR ''{'' # kw @ rest) (Suc (length kw + k)) = char_at rest k"
  by (simp add: char_at_append_length)

lemma read_digits_token:
  "read_digits (CHR ''{'' # kw @ rest) (Suc (length kw + k)) = read_digits rest k"
  by (simp add: read_digits_def)

lemma key_hit_token:
  "key_hit ks (length kw) (CHR ''{'' # kw @ rest) out =
     (if char_at rest 0 = CHR ''}'' then
        (length kw + 2, out\<lparr>sym_key := ks, holdMs := 0, useExpand := 0\<rparr>)
      else if char_at rest 0 = CHR '':'' \<and> char_at rest (1 + length (read_digits rest 1)) = CHR ''}'' then
        (length kw + 3 + length (read_digits rest 1),
         out\<lparr>sym_key := ks, holdMs := atoi (read_digits rest 1), useExpand := 0\<rparr>)
      else (0, out))"
proof -
  have a: "char_at (CHR ''{'' # kw @ rest) (1 + length kw) = char_at rest 0"
    using char_at_token [of kw rest 0] by simp
  have b: "read_digits (CHR ''{'' # kw @ rest) (1 + length kw + 1) = read_digits rest 1"
    using read_digits_token [of kw rest 1] by simp
  have c: "char_at (CHR ''{'' # kw @ rest) (1 + length kw + 1 + n) = char_at rest (1 + n)" for n
    using char_at_token [of kw rest "1 + n"] by simp
  show ?thesis
    unfolding key_hit_def Let_def a b c by simp
qed

text \<open>No name of the table is a prefix of another: the entry of a keyword is the one that decides.\<close>

lemma keyword_scan:
  assumes "(kw, ks) \<in> set key_table"
  shows "match_table key_table (CHR ''{'' # kw @ rest) out =
         key_hit ks (length kw) (CHR ''{'' # kw @ rest) out"
  using assms unfolding key_table_def
  by (auto simp: match_table_hit match_table_skip simp del: match_table.simps)

lemma keyword_not_message:
  assumes "(kw, ks) \<in> set key_table"
  shows "take 8 (CHR ''{'' # kw @ rest) \<noteq> ''{message''"
  using assms unfolding key_table_def by auto

lemma parse_keyword_token:
  assumes "(kw, ks) \<in> set key_table"
  shows "parse_special_token (CHR ''{'' # kw @ rest) out st =
     (if char_at rest 0 = CHR ''}'' then
        (length kw + 2, out\<lparr>sym_key := ks, holdMs := 0, useExpand := 0\<rparr>, st)
      else if char_at rest 0 = CHR '':'' \<and> char_at rest (1 + length (read_digits rest 1)) = CHR ''}'' then
        (length kw + 3 + length (read_digits rest 1),
         out\<lparr>sym_key := ks, holdMs := atoi (read_digits rest 1), useExpand := 0\<rparr>, st)
      else (0, out, st))"
  using keyword_not_message [OF assms, of rest]
  by (simp add: parse_special_token_def keyword_scan [OF assms] key_hit_token)

lemma match_table_accepts:
  "match_table tbl text out = (c, out') \<Longrightarrow> 0 < c \<Longrightarrow>
   \<exists>(kw, ks) \<in> set tbl. take (length kw) (drop 1 text) = kw \<and>
      (char_at text (1 + length kw) = CHR ''}'' \<or> char_at text (1 + length kw) = CHR '':'')"
  by (induction tbl) (auto simp: Let_def split: if_splits)

section \<open>Facts about the trace and the loop of the interpreter\<close>

lemma emits_fields [simp]:
  "g_stopRequested (emits es st) = g_stopRequested st"
  "g_messages (emits es st) = g_messages st"
  "nodelay (emits es st) = nodelay st"
  "input (emits es st) = input st"
  "trace (emits es st) = trace st @ es"
  by (simp_all add: emits_def)

lemma emits_emits [simp]: "emits b (emits a st) = emits (a @ b) st"
  by (simp add: emits_def)

lemma emits_update [simp]:
  "emits es (st\<lparr>g_stopRequested := b\<rparr>) = (emits es st)\<lparr>g_stopRequested := b\<rparr>"
  "emits es (st\<lparr>nodelay := n\<rparr>) = (emits es st)\<lparr>nodelay := n\<rparr>"
  "emits es (st\<lparr>input := k\<rparr>) = (emits es st)\<lparr>input := k\<rparr>"
  by (simp_all add: emits_def)

lemma emit_emits: "emit e st = emits [e] st"
  by (simp add: emit_def emits_def)

lemma add_log_emits: "add_log fmt args st = emits [Log fmt args] st"
  by (simp add: add_log_def emit_emits)

lemma usleep_emits: "usleep us st = emits [Usleep us] st"
  by (simp add: usleep_def emit_emits)

lemma pressKeyDown_emits: "pressKeyDown dpy ks st = emits (down_events dpy ks) st"
  by (simp add: pressKeyDown_def down_events_def Let_def add_log_emits emit_emits)

lemma pressKeyUp_emits: "pressKeyUp dpy ks st = emits (up_events dpy ks) st"
  by (simp add: pressKeyUp_def up_events_def Let_def add_log_emits emit_emits)

lemma pressKey_emits: "pressKey dpy ks st = emits (tap_events dpy ks) st"
  by (simp add: pressKey_def tap_events_def pressKeyDown_emits pressKeyUp_emits usleep_emits)

lemma send_char_emits: "send_char dpy c st = emits (send_events dpy c) st"
  by (simp add: send_char_def send_events_def Let_def add_log_emits pressKey_emits)

lemmas to_emits = add_log_emits usleep_emits pressKeyDown_emits pressKeyUp_emits pressKey_emits
  send_char_emits emit_emits

lemma pt_loop_stop:
  "char_at text i = CHR 0x00 \<or> g_stopRequested st \<Longrightarrow> pt_loop (Suc d) dpy text i st = Some (i, st)"
  by (subst pt_loop.simps) auto

lemma pt_loop_literal:
  assumes "char_at text i \<noteq> CHR 0x00" "\<not> g_stopRequested st"
    and "poll_top st = Some st1" "\<not> g_stopRequested st1"
    and "parse_special_token (drop i text) zero_action st1 = (0, action, st2)"
  shows "pt_loop (Suc d) dpy text i st =
         pt_loop (Suc d) dpy text (i + 1)
           (usleep 30000 (send_char dpy (char_at text i)
              (add_log (''SIM: Sending char '' @ [CHR 0x27] @ ''%c'' @ [CHR 0x27])
                 [ArgChr (char_at text i)] st2)))"
  using assms by (subst pt_loop.simps) simp

lemma pt_loop_key:
  assumes "char_at text i \<noteq> CHR 0x00" "\<not> g_stopRequested st"
    and "poll_top st = Some st1" "\<not> g_stopRequested st1"
    and "parse_special_token (drop i text) zero_action st1 = (consumed, action, st2)"
    and "0 < consumed" "useExpand action = 0"
  shows "pt_loop (Suc d) dpy text i st =
         (case key_action dpy action st2 of
            None \<Rightarrow> None
          | Some st3 \<Rightarrow> pt_loop (Suc d) dpy text (i + consumed) st3)"
  using assms by (subst pt_loop.simps) simp

lemma pt_loop_splice:
  assumes "char_at text i \<noteq> CHR 0x00" "\<not> g_stopRequested st"
    and "poll_top st = Some st1" "\<not> g_stopRequested st1"
    and "parse_special_token (drop i text) zero_action st1 = (consumed, action, st2)"
    and "0 < consumed" "useExpand action \<noteq> 0"
  shows "pt_loop (Suc d) dpy text i st =
         (case expand_and_parse d dpy (expandBuf action)
                 (add_log (''SIM: Insert line => '' @ [CHR 0x22] @ ''%s'' @ [CHR 0x22])
                    [ArgStr (expandBuf action)] st2) of
            None \<Rightarrow> None
          | Some st3 \<Rightarrow> pt_loop (Suc d) dpy text (i + consumed) st3)"
  using assms
  by (subst pt_loop.simps)
     (simp add: expand_and_parse_def parse_and_type_def split: option.splits)

lemma key_events_simps [simp]:
  "key_events [] = []"
  "key_events (XTestFakeKeyEvent kc b # tr) = XTestFakeKeyEvent kc b # key_events tr"
  "key_events (Log f a # tr) = key_events tr"
  "key_events (Usleep n # tr) = key_events tr"
  "key_events (xs @ ys) = key_events xs @ key_events ys"
  by (simp_all add: key_events_def)

lemma key_events_noise: "\<forall>e \<in> set ws. noise e \<Longrightarrow> key_events ws = []"
proof (induction ws)
  case Nil
  show ?case by simp
next
  case (Cons e ws)
  then show ?case by (cases e) auto
qed

lemma drain_keys_facts:
  "g_messages (drain_keys f2 f1 ks st) = g_messages st"
  "nodelay (drain_keys f2 f1 ks st) = nodelay st"
  "g_stopRequested st \<Longrightarrow> g_stopRequested (drain_keys f2 f1 ks st)"
  "KEY_F 2 \<notin> set ks \<Longrightarrow> g_stopRequested (drain_keys f2 f1 ks st) = g_stopRequested st"
  "set (input (drain_keys f2 f1 ks st)) \<subseteq> set ks"
  by (induction ks arbitrary: st; auto simp: add_log_emits)+

lemma drain_keys_trace:
  "\<exists>ws. trace (drain_keys f2 f1 ks st) = trace st @ ws \<and> (\<forall>e \<in> set ws. noise e)"
proof (induction ks arbitrary: st)
  case Nil
  show ?case by simp
next
  case (Cons k ks)
  show ?case
  proof (cases "k = ERR")
    case True
    then show ?thesis by simp
  next
    case False
    note ne = this
    show ?thesis
    proof (cases "k = KEY_F 2")
      case True
      obtain ws where "trace (drain_keys f2 f1 ks ((add_log f2 [] st)\<lparr>g_stopRequested := True\<rparr>))
           = trace ((add_log f2 [] st)\<lparr>g_stopRequested := True\<rparr>) @ ws" "\<forall>e \<in> set ws. noise e"
        using Cons.IH by blast
      then show ?thesis using ne True
        by (intro exI [of _ "Log f2 [] # ws"]) (simp add: add_log_emits)
    next
      case False
      note n2 = this
      show ?thesis
      proof (cases "k = KEY_F 1")
        case True
        obtain ws where "trace (drain_keys f2 f1 ks (add_log f1 [] st))
           = trace (add_log f1 [] st) @ ws" "\<forall>e \<in> set ws. noise e"
          using Cons.IH by blast
        then show ?thesis using ne n2 True
          by (intro exI [of _ "Log f1 [] # ws"]) (simp add: add_log_emits)
      next
        case False
        then show ?thesis using ne n2 Cons.IH [of st] by simp
      qed
    qed
  qed
qed

lemma grows_refl [simp]: "grows st st"
  by (simp add: grows_def)

lemma grows_trans: "grows a b \<Longrightarrow> grows b c \<Longrightarrow> grows a c"
  by (auto simp: grows_def)

lemma grows_emits [simp]: "grows st (emits es st)"
  by (simp add: grows_def)

lemma grows_nodelay [simp]: "grows st (st\<lparr>nodelay := b\<rparr>)"
  by (simp add: grows_def)

lemma poll_getch_Some:
  assumes "poll_getch f2 f1 st = Some st'"
  shows "nodelay st" "nodelay st'" "grows st st'"
    "\<exists>ws. trace st' = trace st @ ws \<and> (\<forall>e \<in> set ws. noise e)"
    "KEY_F 2 \<notin> set (input st) \<Longrightarrow> g_stopRequested st' = g_stopRequested st"
  using assms drain_keys_trace [of f2 f1 "input st" st]
  by (auto simp: poll_getch_def grows_def drain_keys_facts split: if_splits
           dest: subsetD [OF drain_keys_facts(5)])

lemma poll_getch_nodelay: "nodelay st \<Longrightarrow> \<exists>st'. poll_getch f2 f1 st = Some st'"
  by (simp add: poll_getch_def)

lemma hold_wait_Some:
  "nodelay st \<Longrightarrow>
   \<exists>st' ws. hold_wait remain st = Some st' \<and> nodelay st' \<and> grows st st' \<and>
      trace st' = trace st @ ws \<and> (\<forall>e \<in> set ws. noise e)"
proof (induction remain st rule: hold_wait.induct)
  case (1 remain st)
  show ?case
  proof (cases "remain > 0 \<and> \<not> g_stopRequested st")
    case False
    then show ?thesis
      using "1.prems" by (subst hold_wait.simps) auto
  next
    case True
    let ?s = "usleep (50 * 1000) st"
    have nd: "nodelay ?s" using "1.prems" by (simp add: usleep_emits)
    then obtain st1 where p: "poll_getch ''F2 pressed => STOP''
        ''F1 pressed => resetting fields (mid hold)'' ?s = Some st1"
      using poll_getch_nodelay by blast
    note f = poll_getch_Some [OF p]
    obtain w1 where w1: "trace st1 = trace ?s @ w1" "\<forall>e \<in> set w1. noise e"
      using f(4) by blast
    have g1: "grows st st1"
      using f(3) by (auto simp: grows_def usleep_emits)
    show ?thesis
    proof (cases "g_stopRequested st1")
      case True
      have "hold_wait remain st = Some st1"
        using \<open>remain > 0 \<and> \<not> g_stopRequested st\<close> p True by (subst hold_wait.simps) simp
      then show ?thesis using f(2) g1 w1
        by (intro exI [of _ st1] exI [of _ "Usleep 50000 # w1"]) (simp add: usleep_emits)
    next
      case False
      from "1.IH" [OF \<open>remain > 0 \<and> \<not> g_stopRequested st\<close> p False f(2)]
      obtain st' ws where r: "hold_wait (remain - 50) st1 = Some st'" "nodelay st'"
        "grows st1 st'" "trace st' = trace st1 @ ws" "\<forall>e \<in> set ws. noise e"
        by blast
      have "hold_wait remain st = Some st'"
        using \<open>remain > 0 \<and> \<not> g_stopRequested st\<close> p False r(1) by (subst hold_wait.simps) simp
      then show ?thesis using r w1 grows_trans [OF g1 r(3)]
        by (intro exI [of _ st'] exI [of _ "Usleep 50000 # w1 @ ws"]) (auto simp: usleep_emits)
    qed
  qed
qed

lemma parse_special_token_state:
  assumes "parse_special_token text out st = (c, a, st2)"
  shows "\<exists>ws. st2 = emits ws st \<and> key_events ws = []"
proof -
  have "st2 = emits [] st \<or> (\<exists>f args. st2 = emits [Log f args] st)"
    using assms
    by (auto simp: parse_special_token_def Let_def add_log_emits emits_def
             split: if_splits prod.splits)
  then show ?thesis by auto
qed

lemma pt_loop_run: "pt_loop d dpy t i st = Some (j, st') \<Longrightarrow> run dpy t i st j st'"
proof (induction d dpy t i st arbitrary: j st' rule: pt_loop.induct)
  case (1 dpy t i st)
  then show ?case by (simp add: pt_loop.simps)
next
  case (2 d dpy t i st)
  show ?case
  proof (cases "char_at t i \<noteq> CHR 0x00 \<and> \<not> g_stopRequested st")
    case False
    then have "pt_loop (Suc d) dpy t i st = Some (i, st)"
      by (intro pt_loop_stop) auto
    with "2.prems" False show ?thesis by (auto intro: run.stop)
  next
    case True
    note go = this
    then have c: "char_at t i \<noteq> CHR 0x00" and ns: "\<not> g_stopRequested st" by auto
    from "2.prems" go obtain st1 where p: "poll_top st = Some st1"
      by (subst (asm) pt_loop.simps) (auto split: option.splits)
    show ?thesis
    proof (cases "g_stopRequested st1")
      case True
      with "2.prems" go p have "j = i" "st' = st1"
        by (subst (asm) pt_loop.simps, simp)+
      then show ?thesis using run.cancel [OF c ns p True] by simp
    next
      case False
      note ns1 = this
      obtain consumed action st2 where
        ps: "parse_special_token (drop i t) zero_action st1 = (consumed, action, st2)"
        by (metis prod_cases3)
      show ?thesis
      proof (cases "0 < consumed")
        case False
        then have z: "consumed = 0" by simp
        from "2.prems" have r: "pt_loop (Suc d) dpy t (i + 1)
           (usleep 30000 (send_char dpy (char_at t i)
              (add_log (''SIM: Sending char '' @ [CHR 0x27] @ ''%c'' @ [CHR 0x27])
                 [ArgChr (char_at t i)] st2))) = Some (j, st')"
          using pt_loop_literal [OF c ns p ns1 ps [unfolded z], of d dpy] by simp
        from "2.IH"(4) [OF go p ns1 ps [symmetric] refl False r]
        show ?thesis using run.literal [OF c ns p ns1 ps [unfolded z]] by simp
      next
        case True
        note pos = this
        show ?thesis
        proof (cases "useExpand action = 0")
          case True
          from "2.prems" pt_loop_key [OF c ns p ns1 ps pos True, of d dpy]
          obtain st3 where ka: "key_action dpy action st2 = Some st3"
            and r: "pt_loop (Suc d) dpy t (i + consumed) st3 = Some (j, st')"
            by (auto split: option.splits)
          from "2.IH"(3) [OF go p ns1 ps [symmetric] refl pos _ ka r] True
          show ?thesis using run.key [OF c ns p ns1 ps pos True ka] by simp
        next
          case False
          let ?s = "(add_log (''SIM: Insert line => '' @ [CHR 0x22] @ ''%s'' @ [CHR 0x22])
                      [ArgStr (expandBuf action)] st2)\<lparr>nodelay := True\<rparr>"
          from "2.prems" go p ns1 ps pos False
          obtain k st3 where n: "pt_loop d dpy (expandBuf action) 0 ?s = Some (k, st3)"
            and r: "pt_loop (Suc d) dpy t (i + consumed) (st3\<lparr>nodelay := False\<rparr>) = Some (j, st')"
            by (subst (asm) pt_loop.simps) (auto split: option.splits)
          from "2.IH"(1) [OF go p ns1 ps [symmetric] refl pos False n]
          have r1: "run dpy (expandBuf action) 0 ?s k st3" .
          from "2.IH"(2) [OF go p ns1 ps [symmetric] refl pos False n refl r]
          have r2: "run dpy t (i + consumed) (st3\<lparr>nodelay := False\<rparr>) j st'" .
          show ?thesis using run.splice [OF c ns p ns1 ps pos False r1 r2] .
        qed
      qed
    qed
  qed
qed

lemma grows_emits_left: "grows (emits es a) b \<Longrightarrow> grows a b"
  by (auto simp: grows_def)

lemma grows_nodelay_left: "grows (a\<lparr>nodelay := n\<rparr>) b \<Longrightarrow> grows a b"
  by (auto simp: grows_def)

lemma grows_emits_right: "grows a b \<Longrightarrow> grows a (emits es b)"
  by (auto simp: grows_def)

lemma grows_nodelay_right: "grows a b \<Longrightarrow> grows a (b\<lparr>nodelay := n\<rparr>)"
  by (auto simp: grows_def)

lemma hold_wait_grows: "hold_wait remain st = Some st' \<Longrightarrow> grows st st'"
proof (cases "nodelay st")
  case True
  assume "hold_wait remain st = Some st'"
  with hold_wait_Some [OF True, of remain] show ?thesis by auto
next
  case False
  assume "hold_wait remain st = Some st'"
  with False have "st' = st"
    by (subst (asm) hold_wait.simps) (auto simp: poll_getch_def usleep_emits split: if_splits)
  then show ?thesis by simp
qed

lemma key_action_grows: "key_action dpy a st = Some st' \<Longrightarrow> grows st st'"
  by (auto simp: key_action_def to_emits split: if_splits option.splits
           dest!: hold_wait_grows intro: grows_emits_right dest: grows_emits_left)

lemma parse_special_token_grows:
  "parse_special_token t out st = (c, a, st2) \<Longrightarrow> grows st st2"
  using parse_special_token_state [of t out st c a st2] by auto

lemma run_grows: "run dpy t i st j st' \<Longrightarrow> grows st st' \<and> i \<le> j"
proof (induction rule: run.induct)
  case (stop t i st)
  show ?case by simp
next
  case (cancel t i st st1)
  then show ?case using poll_getch_Some(3) by simp
next
  case (literal t i st st1 action st2 j st')
  have "grows st st2"
    using poll_getch_Some(3) [OF literal(3)] parse_special_token_grows [OF literal(5)]
    by (rule grows_trans)
  moreover have "grows st2 st'"
    using literal.IH by (auto simp: to_emits dest: grows_emits_left)
  ultimately show ?case using literal.IH by (auto intro: grows_trans)
next
  case (key t i st st1 consumed action st2 st3 j st')
  have "grows st st2"
    using poll_getch_Some(3) [OF key(3)] parse_special_token_grows [OF key(5)]
    by (rule grows_trans)
  then have "grows st st3"
    using key_action_grows [OF key(8)] by (rule grows_trans)
  then show ?case using key.IH by (auto intro: grows_trans)
next
  case (splice t i st st1 consumed action st2 k st3 j st')
  have "grows st st2"
    using poll_getch_Some(3) [OF splice(3)] parse_special_token_grows [OF splice(5)]
    by (rule grows_trans)
  moreover have "grows st2 st3"
    using splice.IH(1) by (auto simp: to_emits dest: grows_emits_left grows_nodelay_left)
  moreover have "grows st3 st'"
    using splice.IH(2) by (auto dest: grows_nodelay_left)
  ultimately show ?case using splice.IH by (auto intro: grows_trans)
qed

lemma pt_loop_grows: "pt_loop d dpy t i st = Some (j, st') \<Longrightarrow> grows st st'"
  using run_grows [OF pt_loop_run] by blast

lemma parse_and_type_grows: "parse_and_type d dpy t st = Some st' \<Longrightarrow> grows st st'"
  by (auto simp: parse_and_type_def split: option.splits
           dest!: pt_loop_grows dest: grows_nodelay_left intro: grows_nodelay_right)

lemma delay_wait_Some:
  "nodelay st \<Longrightarrow>
   \<exists>st' ws. delay_wait f2 f1 remain st = Some st' \<and> nodelay st' \<and> grows st st' \<and>
      trace st' = trace st @ ws \<and> (\<forall>e \<in> set ws. noise e)"
proof (induction f2 f1 remain st rule: delay_wait.induct)
  case (1 f2 f1 remain st)
  show ?case
  proof (cases "remain > 0 \<and> \<not> g_stopRequested st")
    case False
    then show ?thesis
      using "1.prems" by (subst delay_wait.simps) auto
  next
    case True
    let ?s = "usleep (50 * 1000) st"
    have nd: "nodelay ?s" using "1.prems" by (simp add: usleep_emits)
    then obtain st1 where p: "poll_getch f2 f1 ?s = Some st1"
      using poll_getch_nodelay by blast
    note f = poll_getch_Some [OF p]
    obtain w1 where w1: "trace st1 = trace ?s @ w1" "\<forall>e \<in> set w1. noise e"
      using f(4) by blast
    have g1: "grows st st1"
      using f(3) by (auto simp: grows_def usleep_emits)
    from "1.IH" [OF True p f(2)]
    obtain st' ws where r: "delay_wait f2 f1 (remain - 50) st1 = Some st'" "nodelay st'"
      "grows st1 st'" "trace st' = trace st1 @ ws" "\<forall>e \<in> set ws. noise e"
      by blast
    have "delay_wait f2 f1 remain st = Some st'"
      using True p r(1) by (subst delay_wait.simps) simp
    then show ?thesis using r w1 grows_trans [OF g1 r(3)]
      by (intro exI [of _ st'] exI [of _ "Usleep 50000 # w1 @ ws"]) (auto simp: usleep_emits)
  qed
qed


lemma for_loops_end:
  "\<not> l < loops \<or> g_stopRequested st \<Longrightarrow> for_loops d dpy t loops ld l st = Some st"
  by (subst for_loops.simps) auto



lemma for_loops_next:
  assumes "l < loops" "\<not> g_stopRequested st"
    and "parse_and_type d dpy t
           (add_log ''SIM: Loop %d/%d begin'' [ArgInt (l + 1), ArgInt loops] st) = Some st1"
    and "\<not> g_stopRequested st1"
    and "\<not> (l < loops - 1 \<and> ld > 0)"
  shows "for_loops d dpy t loops ld l st =
         for_loops d dpy t loops ld (l + 1)
           (add_log ''SIM: Loop %d/%d done'' [ArgInt (l + 1), ArgInt loops] st1)"
  using assms by (subst for_loops.simps) (auto simp: Let_def)

lemma for_loops_delay:
  assumes "l < loops" "\<not> g_stopRequested st"
    and "parse_and_type d dpy t
           (add_log ''SIM: Loop %d/%d begin'' [ArgInt (l + 1), ArgInt loops] st) = Some st1"
    and "\<not> g_stopRequested st1"
    and "l < loops - 1 \<and> ld > 0"
  shows "for_loops d dpy t loops ld l st =
         (case loop_delay ld (add_log ''SIM: Loop %d/%d done'' [ArgInt (l + 1), ArgInt loops] st1) of
            None \<Rightarrow> None
          | Some st3 \<Rightarrow>
              if g_stopRequested st3
              then Some (add_log ''SIM: Aborted between loops at loop %d/%d''
                           [ArgInt (l + 1), ArgInt loops] (st3\<lparr>nodelay := False\<rparr>))
              else for_loops d dpy t loops ld (l + 1) (st3\<lparr>nodelay := False\<rparr>))"
  using assms by (subst for_loops.simps) (simp add: Let_def split: option.splits)





lemma char_at_strlen [simp]: "char_at t (strlen t) = CHR 0x00"
proof (cases "strlen t < length t")
  case True
  then show ?thesis
    using nth_length_takeWhile [of "\<lambda>c. c \<noteq> CHR 0x00" t]
    by (simp add: char_at_def strlen_def cstr_def)
next
  case False
  then show ?thesis by (simp add: char_at_def)
qed

lemma char_at_below_strlen: "k < strlen t \<Longrightarrow> char_at t k \<noteq> CHR 0x00"
proof -
  assume k: "k < strlen t"
  then have "k < length t"
    using length_takeWhile_le [of "\<lambda>c. c \<noteq> CHR 0x00" t] by (simp add: strlen_def cstr_def)
  moreover have "takeWhile (\<lambda>c. c \<noteq> CHR 0x00) t ! k = t ! k"
    using k by (simp add: takeWhile_nth strlen_def cstr_def)
  moreover have "takeWhile (\<lambda>c. c \<noteq> CHR 0x00) t ! k \<in> set (takeWhile (\<lambda>c. c \<noteq> CHR 0x00) t)"
    using k by (simp add: strlen_def cstr_def)
  ultimately show ?thesis
    by (auto simp: char_at_def dest: set_takeWhileD)
qed

lemma le_strlen_iff: "n \<le> strlen t \<longleftrightarrow> (\<forall>k < n. char_at t k \<noteq> CHR 0x00)"
proof
  assume "n \<le> strlen t"
  then show "\<forall>k < n. char_at t k \<noteq> CHR 0x00"
    using char_at_below_strlen [of _ t] by auto
next
  assume a: "\<forall>k < n. char_at t k \<noteq> CHR 0x00"
  show "n \<le> strlen t"
  proof (rule ccontr)
    assume "\<not> n \<le> strlen t"
    then have "strlen t < n" by simp
    with a have "char_at t (strlen t) \<noteq> CHR 0x00" by blast
    then show False by simp
  qed
qed

lemma strlen_step: "i \<le> strlen t \<Longrightarrow> char_at t i \<noteq> CHR 0x00 \<Longrightarrow> i < strlen t"
  by (cases "i = strlen t") auto

lemma strlen_end: "i \<le> strlen t \<Longrightarrow> char_at t i = CHR 0x00 \<Longrightarrow> i = strlen t"
  using char_at_below_strlen [of i t] by (cases "i = strlen t") auto

lemma strlen_drop: "i \<le> strlen t \<Longrightarrow> strlen (drop i t) = strlen t - i"
proof -
  assume i: "i \<le> strlen t"
  have a: "n \<le> strlen (drop i t) \<longleftrightarrow> n \<le> strlen t - i" for n
  proof
    assume "n \<le> strlen (drop i t)"
    then have "\<forall>k < n. char_at t (i + k) \<noteq> CHR 0x00"
      by (simp add: le_strlen_iff char_at_drop)
    moreover have "\<forall>k < i. char_at t k \<noteq> CHR 0x00"
      using i by (simp add: le_strlen_iff)
    ultimately have "\<forall>k < i + n. char_at t k \<noteq> CHR 0x00"
      by (metis add_diff_inverse_nat nat_add_left_cancel_less)
    then show "n \<le> strlen t - i"
      using le_strlen_iff [of "i + n" t] by simp
  next
    assume "n \<le> strlen t - i"
    then have "i + n \<le> strlen t" using i by simp
    then have "\<forall>k < i + n. char_at t k \<noteq> CHR 0x00"
      by (simp add: le_strlen_iff)
    then show "n \<le> strlen (drop i t)"
      by (simp add: le_strlen_iff char_at_drop)
  qed
  show ?thesis
    using a [of "strlen (drop i t)"] a [of "strlen t - i"] by simp
qed

lemma isdigit_plain: "isdigit c \<Longrightarrow> plain c"
  by (auto simp: isdigit_def plain_def)

lemma read_digits_nth:
  assumes "k < length (read_digits t idx)"
  shows "char_at t (idx + k) = read_digits t idx ! k" "isdigit (read_digits t idx ! k)"
proof -
  let ?xs = "take 31 (drop idx t)"
  have l: "length (takeWhile isdigit ?xs) \<le> length ?xs"
    by (rule length_takeWhile_le)
  have k: "k < length (takeWhile isdigit ?xs)"
    using assms by (simp add: read_digits_def)
  then have "takeWhile isdigit ?xs ! k = ?xs ! k"
    by (rule takeWhile_nth)
  moreover have "?xs ! k = t ! (idx + k)" and "idx + k < length t"
    using k l by auto
  ultimately show "char_at t (idx + k) = read_digits t idx ! k"
    by (simp add: char_at_def read_digits_def)
  have "takeWhile isdigit ?xs ! k \<in> set (takeWhile isdigit ?xs)"
    using k by simp
  then show "isdigit (read_digits t idx ! k)"
    by (auto simp: read_digits_def dest: set_takeWhileD)
qed

lemma read_digits_plain:
  "idx \<le> k \<Longrightarrow> k < idx + length (read_digits t idx) \<Longrightarrow> plain (char_at t k)"
  using read_digits_nth [of "k - idx" t idx] by (auto intro: isdigit_plain)

lemma prefix_char_at:
  "take (length p) (drop n t) = p \<Longrightarrow> k < length p \<Longrightarrow> char_at t (n + k) = p ! k"
proof -
  assume a: "take (length p) (drop n t) = p" and k: "k < length p"
  have "length (take (length p) (drop n t)) = length p" using a by simp
  then have "n + k < length t" using k by auto
  moreover have "p ! k = t ! (n + k)"
    using a k by (metis nth_take nth_drop calculation less_imp_le_nat add_lessD1 linorder_not_le nat_le_linear)
  ultimately show ?thesis by (simp add: char_at_def)
qed

lemma token_okI:
  assumes "char_at t 0 \<noteq> CHR 0x00" and "\<And>k. 0 < k \<Longrightarrow> k < c \<Longrightarrow> plain (char_at t k)"
  shows "token_ok t c"
  unfolding token_ok_def
proof (intro allI impI)
  fix k assume "k < c"
  then show "char_at t k \<noteq> CHR 0x00 \<and> (0 < k \<longrightarrow> char_at t k \<noteq> CHR ''{'')"
    using assms by (cases "k = 0") (auto simp: plain_def)
qed

lemma key_hit_chars:
  assumes hit: "key_hit ks (length kw) t out = (c, a)" and pos: "0 < c"
    and pre: "take (length kw) (drop 1 t) = kw" and kw: "\<forall>ch \<in> set kw. plain ch"
    and br: "char_at t 0 = CHR ''{''"
  shows "token_ok t c"
proof (rule token_okI)
  show "char_at t 0 \<noteq> CHR 0x00" using br by simp
next
  fix k assume k0: "0 < k" and kc: "k < c"
  let ?n = "length (read_digits t (1 + length kw + 1))"
  have inkw: "plain (char_at t k)" if "k \<le> length kw"
  proof -
    have "char_at t (1 + (k - 1)) = kw ! (k - 1)"
      using that k0 by (intro prefix_char_at [OF pre]) simp
    moreover have "kw ! (k - 1) \<in> set kw" using that k0 by simp
    ultimately show ?thesis using kw k0 by simp
  qed
  have digs: "plain (char_at t k)" if "1 + length kw + 1 \<le> k" "k < 1 + length kw + 1 + ?n"
    using that by (rule read_digits_plain)
  consider (tap) "char_at t (1 + length kw) = CHR ''}''" "c = length kw + 2"
    | (hold) "char_at t (1 + length kw) = CHR '':''"
        "char_at t (1 + length kw + 1 + ?n) = CHR ''}''" "c = length kw + 3 + ?n"
    using hit pos by (auto simp: key_hit_def Let_def split: if_splits)
  then show "plain (char_at t k)"
  proof cases
    case tap
    then show ?thesis
    proof (cases "k \<le> length kw")
      case True
      then show ?thesis by (rule inkw)
    next
      case False
      with kc tap have "k = 1 + length kw" by simp
      with tap show ?thesis by (simp add: plain_def)
    qed
  next
    case hold
    consider "k \<le> length kw" | "k = 1 + length kw"
      | "1 + length kw + 1 \<le> k \<and> k < 1 + length kw + 1 + ?n" | "k = 1 + length kw + 1 + ?n"
      using kc hold(3) by linarith
    then show ?thesis
    proof cases
      case 1 then show ?thesis by (rule inkw)
    next
      case 2 with hold show ?thesis by (simp add: plain_def)
    next
      case 3 then show ?thesis using digs by blast
    next
      case 4 with hold show ?thesis by (simp add: plain_def)
    qed
  qed
qed

lemma match_table_chars:
  assumes "match_table tbl t out = (c, a)" and "0 < c" and "char_at t 0 = CHR ''{''"
    and "\<forall>(kw, ks) \<in> set tbl. \<forall>ch \<in> set kw. plain ch"
  shows "token_ok t c"
  using assms
proof (induction tbl)
  case Nil
  then show ?case by simp
next
  case (Cons e tbl)
  obtain cmd ks where e: "e = (cmd, ks)" by (cases e)
  show ?case
  proof (cases "take (length cmd) (drop 1 t) = cmd")
    case True
    from Cons.prems(1) have "key_hit ks (length cmd) t out = (c, a)"
      unfolding e match_table_hit [OF True] .
    then show ?thesis
      using Cons.prems e True by (intro key_hit_chars [of ks cmd t out c a]) auto
  next
    case False
    from Cons.prems(1) have "match_table tbl t out = (c, a)"
      unfolding e match_table_skip [OF False] .
    then show ?thesis using Cons by auto
  qed
qed

lemma key_table_plain: "\<forall>(kw, ks) \<in> set key_table. \<forall>ch \<in> set kw. plain ch"
  by (simp add: key_table_def plain_def)

lemma message_token_chars:
  assumes pre: "take 8 t = ''{message''"
    and cl: "char_at t (8 + length (read_digits t 8)) = CHR ''}''"
  shows "token_ok t (8 + length (read_digits t 8) + 1)"
proof (rule token_okI)
  have l: "length ''{message'' = 8" by simp
  have p8: "take (length ''{message'') (drop 0 t) = ''{message''"
    by (subst l) (simp add: pre)
  have "char_at t (0 + 0) = ''{message'' ! 0"
    by (rule prefix_char_at [OF p8]) simp
  then show "char_at t 0 \<noteq> CHR 0x00" by simp
next
  have l: "length ''{message'' = 8" by simp
  have p8: "take (length ''{message'') (drop 0 t) = ''{message''"
    by (subst l) (simp add: pre)
  fix k assume k0: "0 < k" and kc: "k < 8 + length (read_digits t 8) + 1"
  consider "k < 8" | "8 \<le> k \<and> k < 8 + length (read_digits t 8)" | "k = 8 + length (read_digits t 8)"
    using kc by linarith
  then show "plain (char_at t k)"
  proof cases
    case 1
    have "char_at t (0 + k) = ''{message'' ! k"
      using 1 by (intro prefix_char_at [OF p8]) simp
    moreover have "k \<in> {1, 2, 3, 4, 5, 6, 7}" using 1 k0 by auto
    ultimately show ?thesis by (auto simp: plain_def)
  next
    case 2 then show ?thesis using read_digits_plain by blast
  next
    case 3 with cl show ?thesis by (simp add: plain_def)
  qed
qed

lemma parse_special_token_chars:
  assumes "parse_special_token t out st = (c, a, st2)" and "0 < c"
  shows "token_ok t c"
proof (cases "take 8 t = ''{message''")
  case True
  with assms have "char_at t (8 + length (read_digits t 8)) = CHR ''}''"
    and "c = 8 + length (read_digits t 8) + 1"
    by (auto simp: parse_special_token_def Let_def split: if_splits)
  with message_token_chars [OF True] show ?thesis by simp
next
  case False
  obtain c' a' where m: "match_table key_table t out = (c', a')"
    by (cases "match_table key_table t out")
  with assms False have "char_at t 0 = CHR ''{''" "c' = c"
    by (auto simp: parse_special_token_def split: if_splits)
  with m assms(2) key_table_plain show ?thesis
    by (intro match_table_chars [of key_table t out c a']) auto
qed

lemma token_within_strlen:
  assumes "parse_special_token (drop i t) out st = (c, a, st2)" and "i \<le> strlen t"
  shows "i + c \<le> strlen t"
proof (cases "0 < c")
  case False
  with assms show ?thesis by simp
next
  case True
  from parse_special_token_chars [OF assms(1) True]
  have "c \<le> strlen (drop i t)"
    by (simp add: le_strlen_iff token_ok_def)
  then show ?thesis using assms(2) by (simp add: strlen_drop)
qed

declare scan_from.simps [simp del]

lemma fst_match_table: "fst (match_table tbl t out) = fst (match_table tbl t out')"
  by (induction tbl) (auto simp: Let_def)

lemma consumed_cong:
  assumes "g_messages st = g_messages st'"
  shows "fst (parse_special_token t out st) = fst (parse_special_token t out' st')"
  using assms fst_match_table [of key_table t out out']
  by (auto simp: parse_special_token_def Let_def split: prod.splits)

lemma advance_cong: "g_messages st = g_messages st' \<Longrightarrow> advance st t i = advance st' t i"
  using consumed_cong [of st st' "drop i t" zero_action zero_action]
  by (simp add: advance_def)

lemma advance_pos [simp]: "0 < advance st t i"
  by (simp add: advance_def Let_def)

lemma advance_within:
  assumes "i < strlen t"
  shows "i + advance st t i \<le> strlen t"
proof -
  obtain c a st2 where p: "parse_special_token (drop i t) zero_action st = (c, a, st2)"
    by (metis prod_cases3)
  show ?thesis
    using token_within_strlen [OF p] assms p by (auto simp: advance_def Let_def)
qed

lemma scan_partition:
  "i \<le> strlen t \<Longrightarrow>
   concat (map (\<lambda>(p, a). [p..<p + a]) (scan_from st t i)) = [i..<strlen t] \<and>
   i + sum_list (map snd (scan_from st t i)) = strlen t"
proof (induction st t i rule: scan_from.induct)
  case (1 st t i)
  show ?case
  proof (cases "char_at t i \<noteq> CHR 0x00")
    case False
    then have "i = strlen t" using "1.prems" by (simp add: strlen_end)
    with False show ?thesis by (subst (1 2) scan_from.simps) simp
  next
    case True
    then have lt: "i < strlen t" using "1.prems" by (simp add: strlen_step)
    then have le: "i + advance st t i \<le> strlen t" by (rule advance_within)
    have "[i..<strlen t] = [i..<i + advance st t i] @ [i + advance st t i..<strlen t]"
      using le by (metis le_add1 upt_add_eq_append le_Suc_ex)
    with "1.IH" [OF True le] True show ?thesis
      by (subst (1 2) scan_from.simps) simp
  qed
qed

lemma run_index:
  "run dpy t i st j st' \<Longrightarrow> i \<le> strlen t \<Longrightarrow>
   j \<le> strlen t \<and> (\<not> g_stopRequested st' \<longrightarrow> j = strlen t)"
proof (induction rule: run.induct)
  case (stop t i st)
  then show ?case by (auto simp: strlen_end)
next
  case (cancel t i st st1)
  then show ?case by simp
next
  case (literal t i st st1 action st2 j st')
  then show ?case using strlen_step [of i t] by simp
next
  case (key t i st st1 consumed action st2 st3 j st')
  then show ?case using token_within_strlen [of i t zero_action st1 consumed action st2] by simp
next
  case (splice t i st st1 consumed action st2 k st3 j st')
  then show ?case using token_within_strlen [of i t zero_action st1 consumed action st2] by simp
qed

lemma scan_from_advance:
  "(p, a) \<in> set (scan_from st t i) \<Longrightarrow> a = advance st t p \<and> i \<le> p"
proof (induction st t i rule: scan_from.induct)
  case (1 st t i)
  show ?case
  proof (cases "char_at t i \<noteq> CHR 0x00")
    case False
    with "1.prems" show ?thesis by (subst (asm) scan_from.simps) simp
  next
    case True
    with "1.prems" have "(p, a) = (i, advance st t i) \<or> (p, a) \<in> set (scan_from st t (i + advance st t i))"
      by (subst (asm) scan_from.simps) simp
    with "1.IH" [OF True] show ?thesis by auto
  qed
qed

lemma typed_simps [simp]:
  "typed [] = []"
  "typed (xs @ ys) = typed xs @ typed ys"
  "typed (e # xs) = sent_char e @ typed xs"
  by (simp_all add: typed_def)

lemma noise_lit_event: "noise e \<Longrightarrow> lit_event e"
  by (cases e) auto

lemma noise_sent_char: "noise e \<Longrightarrow> sent_char e = []"
  by (cases e) auto

lemma typed_noise: "\<forall>e \<in> set ws. noise e \<Longrightarrow> typed ws = []"
  by (induction ws) (auto simp: noise_sent_char)

lemma lit_trace_Nil: "\<forall>e \<in> set ws. noise e \<Longrightarrow> lit_trace dpy [] ws"
  by (auto simp: lit_trace_def typed_noise key_events_noise noise_lit_event)

lemma lit_trace_append:
  "lit_trace dpy cs ws \<Longrightarrow> lit_trace dpy cs' ws' \<Longrightarrow> lit_trace dpy (cs @ cs') (ws @ ws')"
  by (auto simp: lit_trace_def)

lemma send_events_lit: "\<forall>e \<in> set (send_events dpy c). lit_event e"
  by (auto simp: send_events_def tap_events_def down_events_def up_events_def)

lemma typed_send_events [simp]: "typed (send_events dpy c) = []"
  by (auto simp: send_events_def tap_events_def down_events_def up_events_def)

lemma poll_calm:
  assumes "calm st"
  shows "\<exists>st1 ws. poll_getch f2 f1 st = Some st1 \<and> calm st1 \<and> g_messages st1 = g_messages st \<and>
           trace st1 = trace st @ ws \<and> (\<forall>e \<in> set ws. noise e)"
proof -
  from assms obtain st1 where p: "poll_getch f2 f1 st = Some st1"
    using poll_getch_nodelay [of st f2 f1] by (auto simp: calm_def)
  note f = poll_getch_Some [OF p]
  have "calm st1"
    using assms f(2,3,5) by (auto simp: calm_def grows_def)
  moreover have "g_messages st1 = g_messages st"
    using f(3) by (simp add: grows_def)
  ultimately show ?thesis using p f(4) by blast
qed

lemma calm_emits [simp]: "calm (emits es st) = calm st"
  by (simp add: calm_def)

text \<open>The scanner at a position where it rejects: at most a warning is logged.\<close>

lemma parse_rejected_state:
  assumes "parse_special_token t out st = (0, a, st2)"
  shows "\<exists>sw. st2 = emits sw st \<and> lit_trace dpy [] sw"
proof -
  have "st2 = emits [] st \<or>
        st2 = emits [Log ''WARN: {message%d} out of range (1..%d)''
                 [ArgInt (atoi (read_digits t 8)), ArgInt (int (length (g_messages st)))]] st"
    using assms
    by (auto simp: parse_special_token_def Let_def add_log_emits emits_def
             split: if_splits prod.splits)
  then show ?thesis
    by (auto simp: lit_trace_def)
qed

lemma literal_step:
  assumes calm: "calm st" and c: "char_at t i \<noteq> CHR 0x00"
    and rej: "fst (parse_special_token (drop i t) zero_action st) = 0"
  shows "\<exists>st' ws. pt_loop (Suc d) dpy t i st = pt_loop (Suc d) dpy t (i + 1) st' \<and>
           calm st' \<and> g_messages st' = g_messages st \<and>
           trace st' = trace st @ ws \<and> lit_trace dpy [char_at t i] ws"
proof -
  from poll_calm [OF calm] obtain st1 pw where p: "poll_top st = Some st1" and c1: "calm st1"
    and gm: "g_messages st1 = g_messages st" and pw: "trace st1 = trace st @ pw"
    "\<forall>e \<in> set pw. noise e"
    by blast
  obtain consumed action st2 where
    ps: "parse_special_token (drop i t) zero_action st1 = (consumed, action, st2)"
    by (metis prod_cases3)
  have z: "consumed = 0"
    using ps rej consumed_cong [OF gm, of "drop i t" zero_action zero_action] by simp
  from parse_rejected_state [OF ps [unfolded z], of dpy]
  obtain sw where sw: "st2 = emits sw st1" "lit_trace dpy [] sw" by blast
  let ?ev = "[Log (''SIM: Sending char '' @ [CHR 0x27] @ ''%c'' @ [CHR 0x27]) [ArgChr (char_at t i)]]
             @ send_events dpy (char_at t i) @ [Usleep 30000]"
  let ?st' = "usleep 30000 (send_char dpy (char_at t i)
              (add_log (''SIM: Sending char '' @ [CHR 0x27] @ ''%c'' @ [CHR 0x27])
                 [ArgChr (char_at t i)] st2))"
  have st': "?st' = emits (sw @ ?ev) st1"
    using sw(1) by (simp add: to_emits)
  have "pt_loop (Suc d) dpy t i st = pt_loop (Suc d) dpy t (i + 1) ?st'"
    using calm c1 by (intro pt_loop_literal [OF c _ p _ ps [unfolded z]]) (auto simp: calm_def)
  moreover have "calm ?st'" using c1 sw(1) by (simp add: to_emits)
  moreover have "g_messages ?st' = g_messages st" using gm sw(1) by (simp add: to_emits)
  moreover have "trace ?st' = trace st @ (pw @ sw @ ?ev)" using pw(1) sw(1) by (simp add: to_emits)
  moreover have "lit_trace dpy [char_at t i] ?ev"
    using send_events_lit [of dpy "char_at t i"] by (auto simp: lit_trace_def)
  then have "lit_trace dpy [char_at t i] (pw @ sw @ ?ev)"
    using lit_trace_append [OF lit_trace_Nil [OF pw(2), of dpy] lit_trace_append [OF sw(2)]]
    by fastforce
  ultimately show ?thesis by blast
qed

text \<open>A stretch of \<open>n\<close> characters from \<open>i\<close>, none NUL, at none of which the scanner accepts.\<close>

lemma literal_segment:
  assumes "calm st"
    and "\<forall>k < n. char_at t (i + k) \<noteq> CHR 0x00 \<and>
                  fst (parse_special_token (drop (i + k) t) zero_action st) = 0"
  shows "\<exists>st' ws. pt_loop (Suc d) dpy t i st = pt_loop (Suc d) dpy t (i + n) st' \<and>
           calm st' \<and> g_messages st' = g_messages st \<and>
           trace st' = trace st @ ws \<and> lit_trace dpy (map (char_at t) [i..<i + n]) ws"
  using assms
proof (induction n arbitrary: i st)
  case 0
  then show ?case
    by (intro exI [of _ st] exI [of _ "[]"]) (simp add: lit_trace_def)
next
  case (Suc n)
  from Suc.prems(2) have h0: "char_at t i \<noteq> CHR 0x00"
    "fst (parse_special_token (drop i t) zero_action st) = 0"
    by (metis add.right_neutral zero_less_Suc)+
  from literal_step [OF Suc.prems(1) h0, of d dpy]
  obtain st1 w1 where s1: "pt_loop (Suc d) dpy t i st = pt_loop (Suc d) dpy t (i + 1) st1"
    "calm st1" "g_messages st1 = g_messages st" "trace st1 = trace st @ w1"
    "lit_trace dpy [char_at t i] w1"
    by blast
  have "\<forall>k < n. char_at t (i + 1 + k) \<noteq> CHR 0x00 \<and>
                  fst (parse_special_token (drop (i + 1 + k) t) zero_action st1) = 0"
  proof (intro allI impI)
    fix k assume "k < n"
    then have "char_at t (i + Suc k) \<noteq> CHR 0x00 \<and>
               fst (parse_special_token (drop (i + Suc k) t) zero_action st) = 0"
      using Suc.prems(2) by (metis Suc_less_eq)
    then show "char_at t (i + 1 + k) \<noteq> CHR 0x00 \<and>
               fst (parse_special_token (drop (i + 1 + k) t) zero_action st1) = 0"
      using consumed_cong [OF s1(3), of "drop (i + Suc k) t" zero_action zero_action] by simp
  qed
  from Suc.IH [OF s1(2) this]
  obtain st' ws where s2: "pt_loop (Suc d) dpy t (i + 1) st1 = pt_loop (Suc d) dpy t (i + 1 + n) st'"
    "calm st'" "g_messages st' = g_messages st1" "trace st' = trace st1 @ ws"
    "lit_trace dpy (map (char_at t) [i + 1..<i + 1 + n]) ws"
    by blast
  have u: "[i..<i + Suc n] = i # [i + 1..<i + 1 + n]"
    by (simp add: upt_conv_Cons)
  have "lit_trace dpy (map (char_at t) [i..<i + Suc n]) (w1 @ ws)"
    using lit_trace_append [OF s1(5) s2(5)] unfolding u by simp
  then show ?case
    using s1 s2 by (intro exI [of _ st'] exI [of _ "w1 @ ws"]) simp
qed

lemma not_brace_rejected:
  "char_at t 0 \<noteq> CHR ''{'' \<Longrightarrow> parse_special_token t out st = (0, out, st)"
  by (simp add: parse_special_token_def)

lemma char_at_prefix: "k < length xs \<Longrightarrow> char_at (xs @ rest) k = xs ! k"
  by (simp add: char_at_def nth_append)

lemma map_char_at_drop:
  assumes "drop i t = xs @ rest"
  shows "map (char_at t) [i..<i + length xs] = xs"
proof (rule nth_equalityI)
  show "length (map (char_at t) [i..<i + length xs]) = length xs" by simp
next
  fix k assume "k < length (map (char_at t) [i..<i + length xs])"
  then have k: "k < length xs" by simp
  have "char_at t (i + k) = char_at (drop i t) k" by (simp add: char_at_drop)
  also have "\<dots> = xs ! k" using k by (simp add: assms char_at_prefix)
  finally show "map (char_at t) [i..<i + length xs] ! k = xs ! k" using k by simp
qed

lemma char_at_append_n: "length pre = n \<Longrightarrow> char_at (pre @ xs) (n + k) = char_at xs k"
  using char_at_append_length [of pre xs k] by simp

lemma takeWhile_isdigit_rest:
  "\<not> isdigit (char_at rest 0) \<Longrightarrow> takeWhile isdigit (take m rest) = []"
  by (cases rest; cases m) auto

lemma read_digits_exact:
  assumes "\<forall>c \<in> set ds. isdigit c" and "length ds \<le> 31" and "\<not> isdigit (char_at rest 0)"
    and "length pre = n"
  shows "read_digits (pre @ ds @ rest) n = ds"
proof -
  have "take 31 (ds @ rest) = ds @ take (31 - length ds) rest"
    using assms(2) by simp
  then show ?thesis
    using assms(1,4) takeWhile_isdigit_rest [OF assms(3)]
    by (auto simp: read_digits_def takeWhile_append2)
qed

lemma read_digits_long:
  assumes "\<forall>c \<in> set ds. isdigit c" and "31 < length ds" and "length pre = n"
  shows "read_digits (pre @ ds @ rest) n = take 31 ds"
proof -
  have "take 31 (ds @ rest) = take 31 ds"
    using assms(2) by simp
  moreover have "\<forall>c \<in> set (take 31 ds). isdigit c"
    using assms(1) by (auto dest: in_set_takeD)
  then have "takeWhile isdigit (take 31 ds) = take 31 ds"
    by (simp add: takeWhile_eq_all_conv)
  ultimately show ?thesis
    using assms(3) by (auto simp: read_digits_def)
qed

lemma atoi_small: "decimal ds \<le> 2147483647 \<Longrightarrow> atoi ds = int (decimal ds)"
  by (simp add: atoi_def Let_def min_def)

lemma not_isdigit_brace [simp]: "\<not> isdigit CHR ''}''"
  by (simp add: isdigit_def)

lemma message_token_rejected:
  assumes ds: "\<forall>c \<in> set ds. isdigit c"
  shows "length ds \<le> 31 \<Longrightarrow> atoi ds < 1 \<or> int (length (g_messages st)) < atoi ds \<Longrightarrow>
         parse_special_token (''{message'' @ ds @ ''}'' @ rest) out st =
           (0, out, add_log ''WARN: {message%d} out of range (1..%d)''
                      [ArgInt (atoi ds), ArgInt (int (length (g_messages st)))] st)"
    and "31 < length ds \<Longrightarrow>
         parse_special_token (''{message'' @ ds @ ''}'' @ rest) out st = (0, out, st)"
proof -
  let ?t = "''{message'' @ ds @ ''}'' @ rest"
  have l8: "length ''{message'' = 8" by simp
  have t8: "take 8 ?t = ''{message''" by simp
  have b: "char_at ?t 0 = CHR ''{''" by simp
  {
    assume le: "length ds \<le> 31" and r: "atoi ds < 1 \<or> int (length (g_messages st)) < atoi ds"
    have rd: "read_digits ?t 8 = ds"
      by (rule read_digits_exact [OF ds le]) simp_all
    have "char_at (''{message'' @ (ds @ ''}'' @ rest)) (8 + length ds) = char_at (ds @ ''}'' @ rest) (length ds)"
      by (rule char_at_append_n) simp
    also have "\<dots> = CHR ''}''"
      using char_at_append_length [of ds "''}'' @ rest" 0] by simp
    finally have cl: "char_at ?t (8 + length ds) = CHR ''}''" by simp
    show "parse_special_token ?t out st =
           (0, out, add_log ''WARN: {message%d} out of range (1..%d)''
                      [ArgInt (atoi ds), ArgInt (int (length (g_messages st)))] st)"
      unfolding parse_special_token_def Let_def t8 rd using b cl r by auto
  }
  {
    assume gt: "31 < length ds"
    have rd: "read_digits ?t 8 = take 31 ds"
      by (rule read_digits_long [OF ds gt]) simp
    have "char_at (''{message'' @ (ds @ ''}'' @ rest)) (8 + 31) = char_at (ds @ ''}'' @ rest) 31"
      by (rule char_at_append_n) simp
    then have "char_at ?t (8 + 31) = ds ! 31"
      using gt char_at_prefix [of 31 ds "''}'' @ rest"] by simp
    moreover have "isdigit (ds ! 31)" using ds gt by simp
    ultimately have cl: "char_at ?t (8 + length (take 31 ds)) \<noteq> CHR ''}''"
      using gt by (auto simp: min_def)
    show "parse_special_token ?t out st = (0, out, st)"
      unfolding parse_special_token_def Let_def t8 rd using b cl by auto
  }
qed

lemma message_token_plain:
  assumes "\<forall>c \<in> set ds. isdigit c" and "0 < k" and "k < length (''{message'' @ ds @ ''}'')"
  shows "plain (char_at ((''{message'' @ ds @ ''}'') @ rest) k)"
proof -
  let ?tl = "''message'' @ ds @ ''}''"
  have "\<forall>c \<in> set ds. plain c"
    using assms(1) isdigit_plain by blast
  then have "\<forall>c \<in> set ?tl. plain c"
    by (auto simp: plain_def)
  moreover have "char_at ((''{message'' @ ds @ ''}'') @ rest) k = ?tl ! (k - 1)"
    using assms(2,3) char_at_prefix [of "k - 1" ?tl rest] by (cases k) auto
  moreover have "k - 1 < length ?tl" using assms(2,3) by auto
  ultimately show ?thesis by (metis nth_mem)
qed

lemma count_log_simps [simp]:
  "count_log fmt [] = 0"
  "count_log fmt (xs @ ys) = count_log fmt xs + count_log fmt ys"
  "count_log fmt (e # xs) = (if is_log fmt e then 1 else 0) + count_log fmt xs"
  by (simp_all add: count_log_def)

lemma count_log_none: "\<forall>e \<in> set ws. \<not> is_log fmt e \<Longrightarrow> count_log fmt ws = 0"
  by (induction ws) auto

lemma noise_not_log: "noise e \<Longrightarrow> \<not> is_log fmt e"
  by (cases e) auto

lemma count_log_noise: "\<forall>e \<in> set ws. noise e \<Longrightarrow> count_log fmt ws = 0"
  by (rule count_log_none) (auto dest: noise_not_log)

lemma lit_event_not_begin: "lit_event e \<Longrightarrow> \<not> is_log ''SIM: Loop %d/%d begin'' e"
  by (cases e) auto

lemma lit_event_not_sleeping:
  "lit_event e \<Longrightarrow> \<not> is_log ''SIM: Sleeping %d ms before next loop...'' e"
  by (cases e) auto

lemma calm_uncancelled: "calm st \<longleftrightarrow> nodelay st \<and> uncancelled st"
  by (auto simp: calm_def uncancelled_def)

lemma uncancelled_emits [simp]: "uncancelled (emits es st) = uncancelled st"
  by (simp add: uncancelled_def)

lemma uncancelled_nodelay [simp]: "uncancelled (st\<lparr>nodelay := b\<rparr>) = uncancelled st"
  by (simp add: uncancelled_def)

lemma uncancelled_reset [simp]:
  "uncancelled (st\<lparr>g_stopRequested := False\<rparr>) \<longleftrightarrow> KEY_F 2 \<notin> set (input st)"
  by (simp add: uncancelled_def)

lemma map_char_at_cstr: "map (char_at t) [0..<strlen t] = cstr t"
proof (rule nth_equalityI)
  show "length (map (char_at t) [0..<strlen t]) = length (cstr t)"
    by (simp add: strlen_def)
next
  fix k assume "k < length (map (char_at t) [0..<strlen t])"
  then have k: "k < strlen t" by simp
  then have "k < length t"
    using length_takeWhile_le [of "\<lambda>c. c \<noteq> CHR 0x00" t] by (simp add: strlen_def cstr_def)
  moreover have "cstr t ! k = t ! k"
    using k by (simp add: takeWhile_nth strlen_def cstr_def)
  ultimately show "map (char_at t) [0..<strlen t] ! k = cstr t ! k"
    using k by (simp add: char_at_def)
qed

text \<open>One run of the interpreter over a script in which the scanner accepts nowhere.\<close>

lemma parse_and_type_literal:
  assumes u: "uncancelled st"
    and nodir: "\<forall>i < strlen t. fst (parse_special_token (drop i t) zero_action st) = 0"
  shows "\<exists>st' ws. parse_and_type (Suc d) dpy t st = Some st' \<and> uncancelled st' \<and>
           g_messages st' = g_messages st \<and> trace st' = trace st @ ws \<and>
           lit_trace dpy (cstr t) ws"
proof -
  let ?s = "st\<lparr>nodelay := True\<rparr>"
  have c: "calm ?s" using u by (simp add: calm_def uncancelled_def)
  have seg: "\<forall>k < strlen t. char_at t (0 + k) \<noteq> CHR 0x00 \<and>
                fst (parse_special_token (drop (0 + k) t) zero_action ?s) = 0"
  proof (intro allI impI)
    fix k assume k: "k < strlen t"
    have "fst (parse_special_token (drop k t) zero_action ?s)
          = fst (parse_special_token (drop k t) zero_action st)"
      by (rule consumed_cong) simp
    then show "char_at t (0 + k) \<noteq> CHR 0x00 \<and>
                fst (parse_special_token (drop (0 + k) t) zero_action ?s) = 0"
      using k nodir char_at_below_strlen [OF k] by simp
  qed
  from literal_segment [OF c seg, of d dpy]
  obtain st1 ws where r: "pt_loop (Suc d) dpy t 0 ?s = pt_loop (Suc d) dpy t (0 + strlen t) st1"
    "calm st1" "g_messages st1 = g_messages ?s" "trace st1 = trace ?s @ ws"
    "lit_trace dpy (map (char_at t) [0..<0 + strlen t]) ws"
    by blast
  have "pt_loop (Suc d) dpy t (0 + strlen t) st1 = Some (0 + strlen t, st1)"
    by (rule pt_loop_stop) simp
  with r(1) have "parse_and_type (Suc d) dpy t st = Some (st1\<lparr>nodelay := False\<rparr>)"
    by (simp add: parse_and_type_def)
  moreover have "uncancelled (st1\<lparr>nodelay := False\<rparr>)"
    using r(2) by (simp add: calm_uncancelled)
  moreover have "lit_trace dpy (cstr t) ws"
    using r(5) by (simp add: map_char_at_cstr)
  ultimately show ?thesis using r(3,4) by auto
qed

lemma delay_wait_calm:
  "calm st \<Longrightarrow>
   \<exists>st' ws. delay_wait f2 f1 remain st = Some st' \<and> calm st' \<and>
      g_messages st' = g_messages st \<and> trace st' = trace st @ ws \<and> (\<forall>e \<in> set ws. noise e)"
proof (induction f2 f1 remain st rule: delay_wait.induct)
  case (1 f2 f1 remain st)
  show ?case
  proof (cases "remain > 0 \<and> \<not> g_stopRequested st")
    case False
    then show ?thesis
      using "1.prems" by (subst delay_wait.simps) auto
  next
    case True
    let ?s = "usleep (50 * 1000) st"
    have "calm ?s" using "1.prems" by (simp add: usleep_emits)
    from poll_calm [OF this, of f2 f1]
    obtain st1 w1 where p: "poll_getch f2 f1 ?s = Some st1" "calm st1"
      "g_messages st1 = g_messages ?s" "trace st1 = trace ?s @ w1" "\<forall>e \<in> set w1. noise e"
      by blast
    from "1.IH" [OF True p(1) p(2)]
    obtain st' ws where r: "delay_wait f2 f1 (remain - 50) st1 = Some st'" "calm st'"
      "g_messages st' = g_messages st1" "trace st' = trace st1 @ ws" "\<forall>e \<in> set ws. noise e"
      by blast
    have "delay_wait f2 f1 remain st = Some st'"
      using True p(1) r(1) by (subst delay_wait.simps) simp
    then show ?thesis using r p
      by (intro exI [of _ st'] exI [of _ "Usleep 50000 # w1 @ ws"]) (auto simp: usleep_emits)
  qed
qed

lemma lit_trace_counts:
  assumes "lit_trace dpy cs ws"
  shows "count_log ''SIM: Loop %d/%d begin'' ws = 0"
    "count_log ''SIM: Sleeping %d ms before next loop...'' ws = 0"
  using assms
  by (auto simp: lit_trace_def intro!: count_log_none
           dest: lit_event_not_begin lit_event_not_sleeping)

lemma for_loops_literal:
  assumes "n = nat (loops - l)" and "uncancelled st"
    and "\<forall>i < strlen t. fst (parse_special_token (drop i t) zero_action st) = 0"
  shows "\<exists>st' ws. for_loops (Suc d) dpy t loops ld l st = Some st' \<and> uncancelled st' \<and>
           g_messages st' = g_messages st \<and> trace st' = trace st @ ws \<and>
           iter_trace dpy t ld n ws \<and>
           (l < loops \<longrightarrow> (\<exists>ws'. ws = ws' @ [Log ''SIM: Loop %d/%d done'' [ArgInt loops, ArgInt loops]]))"
  using assms
proof (induction n arbitrary: l st)
  case 0
  then have "\<not> l < loops" by simp
  then have "for_loops (Suc d) dpy t loops ld l st = Some st"
    by (intro for_loops_end) simp
  with 0 \<open>\<not> l < loops\<close> show ?case
    by (intro exI [of _ st] exI [of _ "[]"]) (simp add: iter_trace_def)
next
  case (Suc n)
  then have lt: "l < loops" and n: "n = nat (loops - (l + 1))" by auto
  have ns: "\<not> g_stopRequested st" using Suc.prems(2) by (simp add: uncancelled_def)
  let ?b = "add_log ''SIM: Loop %d/%d begin'' [ArgInt (l + 1), ArgInt loops] st"
  have ub: "uncancelled ?b" using Suc.prems(2) by (simp add: to_emits)
  have nb: "\<forall>i < strlen t. fst (parse_special_token (drop i t) zero_action ?b) = 0"
  proof (intro allI impI)
    fix i assume "i < strlen t"
    moreover have "fst (parse_special_token (drop i t) zero_action ?b)
          = fst (parse_special_token (drop i t) zero_action st)"
      by (rule consumed_cong) (simp add: to_emits)
    ultimately show "fst (parse_special_token (drop i t) zero_action ?b) = 0"
      using Suc.prems(3) by simp
  qed
  from parse_and_type_literal [OF ub nb, of d dpy]
  obtain st1 pw where p: "parse_and_type (Suc d) dpy t ?b = Some st1" "uncancelled st1"
    "g_messages st1 = g_messages ?b" "trace st1 = trace ?b @ pw" "lit_trace dpy (cstr t) pw"
    by blast
  have ns1: "\<not> g_stopRequested st1" using p(2) by (simp add: uncancelled_def)
  let ?st2 = "add_log ''SIM: Loop %d/%d done'' [ArgInt (l + 1), ArgInt loops] st1"
  let ?pre = "[Log ''SIM: Loop %d/%d begin'' [ArgInt (l + 1), ArgInt loops]] @ pw @
              [Log ''SIM: Loop %d/%d done'' [ArgInt (l + 1), ArgInt loops]]"
  have t2: "trace ?st2 = trace st @ ?pre" using p(4) by (simp add: to_emits)
  have g2: "g_messages ?st2 = g_messages st" using p(3) by (simp add: to_emits)
  have u2: "uncancelled ?st2" using p(2) by (simp add: to_emits)
  have pre: "typed ?pre = cstr t"
    "key_events ?pre = concat (map (\<lambda>c. key_events (send_events dpy c)) (cstr t))"
    "count_log ''SIM: Loop %d/%d begin'' ?pre = 1"
    "count_log ''SIM: Sleeping %d ms before next loop...'' ?pre = 0"
    using p(5) lit_trace_counts [OF p(5)] by (simp_all add: lit_trace_def)
  have nd: "\<forall>i < strlen t. fst (parse_special_token (drop i t) zero_action s) = 0"
    if "g_messages s = g_messages st" for s
  proof (intro allI impI)
    fix i assume "i < strlen t"
    moreover have "fst (parse_special_token (drop i t) zero_action s)
          = fst (parse_special_token (drop i t) zero_action st)"
      using that by (rule consumed_cong)
    ultimately show "fst (parse_special_token (drop i t) zero_action s) = 0"
      using Suc.prems(3) by simp
  qed
  show ?case
  proof (cases "l < loops - 1 \<and> ld > 0")
    case False
    have step: "for_loops (Suc d) dpy t loops ld l st = for_loops (Suc d) dpy t loops ld (l + 1) ?st2"
      by (rule for_loops_next [OF lt ns p(1) ns1 False])
    from Suc.IH [OF n u2 nd [OF g2]]
    obtain st' ws where r: "for_loops (Suc d) dpy t loops ld (l + 1) ?st2 = Some st'"
      "uncancelled st'" "g_messages st' = g_messages ?st2" "trace st' = trace ?st2 @ ws"
      "iter_trace dpy t ld n ws"
      "l + 1 < loops \<longrightarrow> (\<exists>ws'. ws = ws' @ [Log ''SIM: Loop %d/%d done'' [ArgInt loops, ArgInt loops]])"
      by blast
    have n0: "0 < ld \<Longrightarrow> n = 0" using False lt n by auto
    have it: "iter_trace dpy t ld (Suc n) (?pre @ ws)"
      using r(5) pre n0 unfolding iter_trace_def by auto
    have la: "\<exists>ws'. ?pre @ ws = ws' @ [Log ''SIM: Loop %d/%d done'' [ArgInt loops, ArgInt loops]]"
    proof (cases "l + 1 < loops")
      case True
      with r(6) obtain ws' where "ws = ws' @ [Log ''SIM: Loop %d/%d done'' [ArgInt loops, ArgInt loops]]"
        by blast
      then show ?thesis by (intro exI [of _ "?pre @ ws'"]) simp
    next
      case False
      with lt have e: "l + 1 = loops" by simp
      then have "n = 0" using n by simp
      with r(5) have "typed ws = [] \<and> count_log ''SIM: Loop %d/%d begin'' ws = 0"
        by (simp add: iter_trace_def)
      have "for_loops (Suc d) dpy t loops ld (l + 1) ?st2 = Some ?st2"
        using e by (intro for_loops_end) simp
      with r(1,4) have "ws = []" by simp
      then show ?thesis using e
        by (intro exI [of _ "[Log ''SIM: Loop %d/%d begin'' [ArgInt (l + 1), ArgInt loops]] @ pw"]) simp
    qed
    show ?thesis
      using step r(1,2,3,4) g2 t2 it la
      by (intro exI [of _ st'] exI [of _ "?pre @ ws"]) simp
  next
    case True
    let ?s3 = "(add_log ''SIM: Sleeping %d ms before next loop...'' [ArgInt ld] ?st2)\<lparr>nodelay := True\<rparr>"
    have "calm ?s3" using u2 by (simp add: calm_uncancelled to_emits)
    from delay_wait_calm [OF this]
    obtain st3 dw where dl: "loop_delay ld ?st2 = Some st3" "calm st3"
      "g_messages st3 = g_messages ?s3" "trace st3 = trace ?s3 @ dw" "\<forall>e \<in> set dw. noise e"
      by blast
    let ?st4 = "st3\<lparr>nodelay := False\<rparr>"
    have ns3: "\<not> g_stopRequested st3" using dl(2) by (simp add: calm_def)
    have step: "for_loops (Suc d) dpy t loops ld l st = for_loops (Suc d) dpy t loops ld (l + 1) ?st4"
      using for_loops_delay [OF lt ns p(1) ns1 True] dl(1) ns3 by simp
    have u4: "uncancelled ?st4" using dl(2) by (simp add: calm_uncancelled)
    have g4: "g_messages ?st4 = g_messages st" using dl(3) g2 by (simp add: to_emits)
    let ?mid = "?pre @ [Log ''SIM: Sleeping %d ms before next loop...'' [ArgInt ld]] @ dw"
    have t4: "trace ?st4 = trace st @ ?mid" using dl(4) t2 by (simp add: to_emits)
    from Suc.IH [OF n u4 nd [OF g4]]
    obtain st' ws where r: "for_loops (Suc d) dpy t loops ld (l + 1) ?st4 = Some st'"
      "uncancelled st'" "g_messages st' = g_messages ?st4" "trace st' = trace ?st4 @ ws"
      "iter_trace dpy t ld n ws"
      "l + 1 < loops \<longrightarrow> (\<exists>ws'. ws = ws' @ [Log ''SIM: Loop %d/%d done'' [ArgInt loops, ArgInt loops]])"
      by blast
    have n1: "0 < n" using True n by auto
    have mid: "typed ?mid = cstr t"
      "key_events ?mid = concat (map (\<lambda>c. key_events (send_events dpy c)) (cstr t))"
      "count_log ''SIM: Loop %d/%d begin'' ?mid = 1"
      "count_log ''SIM: Sleeping %d ms before next loop...'' ?mid = 1"
      using pre dl(5) by (simp_all add: typed_noise key_events_noise count_log_noise)
    have it: "iter_trace dpy t ld (Suc n) (?mid @ ws)"
      using r(5) mid n1 True unfolding iter_trace_def
      by (simp only: typed_simps key_events_simps count_log_simps replicate_Suc concat.simps) simp
    from True r(6) obtain ws' where "ws = ws' @ [Log ''SIM: Loop %d/%d done'' [ArgInt loops, ArgInt loops]]"
      by auto
    then have la: "\<exists>ws'. ?mid @ ws = ws' @ [Log ''SIM: Loop %d/%d done'' [ArgInt loops, ArgInt loops]]"
      by (intro exI [of _ "?mid @ ws'"]) simp
    show ?thesis
      using step r(1,2,3,4) g4 t4 it la
      by (intro exI [of _ st'] exI [of _ "?mid @ ws"]) simp
  qed
qed

lemma length_concat_replicate: "length (concat (replicate n xs)) = n * length xs"
  by (induction n) auto

lemma unmappable_no_keys:
  "map_char_to_keysym dpy c = NoSymbol \<Longrightarrow> key_events (send_events dpy c) = []"
  by (simp add: send_events_def)

lemma run_loops_literal:
  assumes "uncancelled st"
    and "\<forall>i < strlen t. fst (parse_special_token (drop i t) zero_action st) = 0"
  shows "\<exists>st' ws. run_loops (Suc d) dpy t loops ld st = Some st' \<and> \<not> g_stopRequested st' \<and>
           trace st' = trace st @ ws \<and> iter_trace dpy t ld (nat loops) ws \<and>
           (\<exists>ws'. ws = ws' @ (if 0 < loops
                               then [Log ''SIM: Loop %d/%d done'' [ArgInt loops, ArgInt loops]]
                               else [])
                        @ [Log ''SIM: All loops completed successfully.'' []])"
proof -
  from for_loops_literal [OF _ assms, of "nat loops" loops 0 d dpy ld]
  obtain st1 fw where f: "for_loops (Suc d) dpy t loops ld 0 st = Some st1" "uncancelled st1"
    "trace st1 = trace st @ fw" "iter_trace dpy t ld (nat loops) fw"
    "0 < loops \<longrightarrow> (\<exists>ws'. fw = ws' @ [Log ''SIM: Loop %d/%d done'' [ArgInt loops, ArgInt loops]])"
    by auto
  let ?fin = "add_log ''SIM: All loops completed successfully.'' [] st1"
  have ns: "\<not> g_stopRequested st1" using f(2) by (simp add: uncancelled_def)
  have r: "run_loops (Suc d) dpy t loops ld st = Some ?fin"
    using f(1) ns by (simp add: run_loops_def)
  have it: "iter_trace dpy t ld (nat loops) (fw @ [Log ''SIM: All loops completed successfully.'' []])"
    using f(4) by (simp add: iter_trace_def)
  have la: "\<exists>ws'. fw @ [Log ''SIM: All loops completed successfully.'' []] =
       ws' @ (if 0 < loops then [Log ''SIM: Loop %d/%d done'' [ArgInt loops, ArgInt loops]] else [])
           @ [Log ''SIM: All loops completed successfully.'' []]"
  proof (cases "0 < loops")
    case True
    with f(5) obtain ws' where "fw = ws' @ [Log ''SIM: Loop %d/%d done'' [ArgInt loops, ArgInt loops]]"
      by blast
    with True show ?thesis by (intro exI [of _ ws']) simp
  next
    case False
    then show ?thesis by (intro exI [of _ fw]) simp
  qed
  show ?thesis
    using r ns f(3) it la
    by (intro exI [of _ ?fin] exI [of _ "fw @ [Log ''SIM: All loops completed successfully.'' []]"])
       (simp add: to_emits)
qed

lemma simulate_typing_started:
  "simulate_typing d dpy t loops sd ld st = after_reset d dpy t loops sd ld (started t loops sd ld st)"
  by (simp add: simulate_typing_def started_def)

lemma loop_head_for_loops:
  "loop_head d dpy t loops ld st0 l st \<Longrightarrow>
   for_loops d dpy t loops ld 0 st0 = for_loops d dpy t loops ld l st"
proof (induction rule: loop_head.induct)
  case first
  show ?case by simp
next
  case (undelayed l st st1)
  then show ?case using for_loops_next [of l loops st d dpy t st1 ld] by simp
next
  case (delayed l st st1 st3)
  then show ?case using for_loops_delay [of l loops st d dpy t st1 ld] by simp
qed

lemma parse_and_type_nodelay: "parse_and_type d dpy t st = Some st' \<Longrightarrow> \<not> nodelay st'"
  by (auto simp: parse_and_type_def split: option.splits)

text \<open>
  After a splice the loop polls in blocking mode: when the text goes on after a message
  token, the loop returns only if the stop flag was set inside the splice.
\<close>

lemma splice_then_more_text:
  assumes c: "char_at t i \<noteq> CHR 0x00" and ns: "\<not> g_stopRequested st"
    and p: "poll_top st = Some st1" and ns1: "\<not> g_stopRequested st1"
    and ps: "parse_special_token (drop i t) zero_action st1 = (consumed, action, st2)"
    and pos: "0 < consumed" and ex: "useExpand action \<noteq> 0"
    and more: "char_at t (i + consumed) \<noteq> CHR 0x00"
    and r: "pt_loop d dpy t i st = Some (j, st')"
  shows "g_stopRequested st'"
proof -
  obtain d' where d: "d = Suc d'"
    using r by (cases d) (auto simp: pt_loop.simps)
  from r pt_loop_splice [OF c ns p ns1 ps pos ex, of d' dpy]
  obtain st3 where e: "expand_and_parse d' dpy (expandBuf action)
                 (add_log (''SIM: Insert line => '' @ [CHR 0x22] @ ''%s'' @ [CHR 0x22])
                    [ArgStr (expandBuf action)] st2) = Some st3"
    and r': "pt_loop (Suc d') dpy t (i + consumed) st3 = Some (j, st')"
    unfolding d by (auto split: option.splits)
  have nd: "\<not> nodelay st3"
    using e by (auto simp: expand_and_parse_def dest: parse_and_type_nodelay)
  show ?thesis
  proof (cases "g_stopRequested st3")
    case True
    then have "pt_loop (Suc d') dpy t (i + consumed) st3 = Some (i + consumed, st3)"
      by (intro pt_loop_stop) simp
    with r' True show ?thesis by simp
  next
    case False
    have "pt_loop (Suc d') dpy t (i + consumed) st3 = None"
      using more False nd by (subst pt_loop.simps) (simp add: poll_getch_def)
    with r' show ?thesis by simp
  qed
qed

text \<open>
  A table entry that begins with the token of its own line: with no cancellation set or
  pending, the interpreter does not return from it, however deep the nesting may go.
\<close>

lemma self_splice_never_returns:
  assumes tok: "take 8 e = ''{message''"
    and close: "char_at e (8 + length (read_digits e 8)) = CHR ''}''"
    and lo: "1 \<le> atoi (read_digits e 8)"
    and hi: "atoi (read_digits e 8) \<le> int (length msgs)"
    and self: "take 2047 (cstr (msgs ! (nat (atoi (read_digits e 8)) - 1))) = e"
    and m: "g_messages st = msgs" and u: "uncancelled st"
  shows "parse_and_type d dpy e st = None"
  using m u
proof (induction d arbitrary: st)
  case 0
  show ?case by (simp add: parse_and_type_def pt_loop.simps)
next
  case (Suc d)
  let ?s = "st\<lparr>nodelay := True\<rparr>"
  have c0: "char_at e 0 = CHR ''{''"
    using tok by (cases e) (auto simp: char_at_def)
  then have c: "char_at e 0 \<noteq> CHR 0x00" by simp
  have calm: "calm ?s"
    using Suc.prems by (simp add: calm_def uncancelled_def)
  from poll_calm [OF calm, of "''F2 pressed => STOP requested''"
      "''F1 pressed => resetting fields (in parse_and_type)''"]
  obtain st1 where p: "poll_top ?s = Some st1" and c1: "calm st1"
    and m1: "g_messages st1 = msgs"
    using Suc.prems by auto
  define a where "a = zero_action\<lparr>sym_key := 0, holdMs := 0, useExpand := 1, expandBuf := e\<rparr>"
  define st2 where "st2 = add_log (''SIM: Found token {message%s} => line %d: '' @ [CHR 0x22] @ ''%s'' @ [CHR 0x22])
       [ArgStr (read_digits e 8), ArgInt (atoi (read_digits e 8)), ArgStr e] st1"
  have ps: "parse_special_token (drop 0 e) zero_action st1 =
              (8 + length (read_digits e 8) + 1, a, st2)"
    using tok close lo hi self c0
    by (simp add: parse_special_token_def Let_def m1 a_def st2_def)
  let ?st3 = "add_log (''SIM: Insert line => '' @ [CHR 0x22] @ ''%s'' @ [CHR 0x22]) [ArgStr (expandBuf a)] st2"
  have "uncancelled ?st3" "g_messages ?st3 = msgs"
    using c1 m1 by (simp_all add: st2_def to_emits calm_def uncancelled_def emits_def)
  then have "parse_and_type d dpy e ?st3 = None"
    using Suc.IH by simp
  then have n: "expand_and_parse d dpy (expandBuf a) ?st3 = None"
    by (simp add: expand_and_parse_def a_def)
  have "pt_loop (Suc d) dpy e 0 ?s = None"
    using pt_loop_splice [OF c _ p _ ps, of d dpy] calm c1 n
    by (simp add: calm_def a_def)
  then show ?case by (simp add: parse_and_type_def)
qed

lemma parse_special_token_cong:
  assumes "g_messages st = g_messages st'"
  shows "fst (parse_special_token t out st) = fst (parse_special_token t out st')"
    and "fst (snd (parse_special_token t out st)) = fst (snd (parse_special_token t out st'))"
  using assms
  by (auto simp: parse_special_token_def Let_def split: prod.splits)

lemma splice_at_parse:
  assumes "parse_special_token (drop i t) zero_action st = (c, a, st2)"
    and "0 < c" and "useExpand a \<noteq> 0"
  shows "splice_at (g_messages st) t i = Some (c, expandBuf a)"
proof -
  have m: "g_messages (ex_state (g_messages st) []) = g_messages st"
    by (simp add: ex_state_def)
  from parse_special_token_cong [OF m, of "drop i t" zero_action] assms
  show ?thesis
    by (auto simp: splice_at_def split: prod.splits)
qed

lemma key_action_Some:
  assumes "nodelay st"
  shows "\<exists>st'. key_action dpy a st = Some st' \<and> nodelay st' \<and> g_messages st' = g_messages st"
proof (cases "holdMs a > 0")
  case False
  then show ?thesis using assms by (simp add: key_action_def to_emits)
next
  case True
  let ?s = "pressKeyDown dpy (sym_key a)
              (add_log ''SIM: Holding KeySym=0x%lx for %d ms'' [ArgHex (sym_key a), ArgInt (holdMs a)] st)"
  have "nodelay ?s" using assms by (simp add: to_emits)
  from hold_wait_Some [OF this, of "holdMs a"]
  obtain st' where "hold_wait (holdMs a) ?s = Some st'" "nodelay st'" "grows ?s st'"
    by blast
  then show ?thesis using True
    by (simp add: key_action_def to_emits grows_def)
qed

lemma pt_loop_returns:
  assumes hyp: "\<forall>k < strlen t. \<forall>c e. splice_at msgs t k = Some (c, e) \<longrightarrow>
            char_at t (k + c) = CHR 0x00 \<and>
            (\<forall>s. g_messages s = msgs \<longrightarrow> (\<exists>s'. parse_and_type d dpy e s = Some s'))"
    and "nodelay st" and "g_messages st = msgs" and "i \<le> strlen t"
  shows "\<exists>j st'. pt_loop (Suc d) dpy t i st = Some (j, st')"
  using assms(2-)
proof (induction "strlen t - i" arbitrary: i st rule: less_induct)
  case less
  show ?case
  proof (cases "char_at t i = CHR 0x00 \<or> g_stopRequested st")
    case True
    then show ?thesis using pt_loop_stop [of t i st d dpy] by simp
  next
    case False
    then have c: "char_at t i \<noteq> CHR 0x00" and ns: "\<not> g_stopRequested st" by simp_all
    have lt: "i < strlen t" using less.prems(3) c by (rule strlen_step)
    from poll_getch_nodelay [OF less.prems(1)]
    obtain st1 where p: "poll_top st = Some st1" by blast
    note pf = poll_getch_Some [OF p]
    have m1: "g_messages st1 = msgs" using pf(3) less.prems(2) by (simp add: grows_def)
    show ?thesis
    proof (cases "g_stopRequested st1")
      case True
      then show ?thesis using c ns p by (subst pt_loop.simps) simp
    next
      case ns1: False
      obtain consumed a st2 where ps: "parse_special_token (drop i t) zero_action st1 = (consumed, a, st2)"
        by (metis prod_cases3)
      from parse_special_token_state [OF ps] obtain ws where st2: "st2 = emits ws st1" by blast
      have nd2: "nodelay st2" and m2: "g_messages st2 = msgs"
        using pf(2) m1 by (simp_all add: st2)
      show ?thesis
      proof (cases "0 < consumed")
        case False
        then have z: "consumed = 0" by simp
        let ?s = "usleep 30000 (send_char dpy (char_at t i)
              (add_log (''SIM: Sending char '' @ [CHR 0x27] @ ''%c'' @ [CHR 0x27])
                 [ArgChr (char_at t i)] st2))"
        have "pt_loop (Suc d) dpy t i st = pt_loop (Suc d) dpy t (i + 1) ?s"
          using pt_loop_literal [OF c ns p ns1 ps [unfolded z]] .
        moreover have "\<exists>j st'. pt_loop (Suc d) dpy t (i + 1) ?s = Some (j, st')"
          using lt nd2 m2 by (intro less.hyps) (simp_all add: to_emits)
        ultimately show ?thesis by simp
      next
        case pos: True
        have le': "i + consumed \<le> strlen t"
          using token_within_strlen [OF ps less.prems(3)] .
        show ?thesis
        proof (cases "useExpand a = 0")
          case True
          from key_action_Some [OF nd2, of dpy a]
          obtain st3 where k: "key_action dpy a st2 = Some st3" "nodelay st3" "g_messages st3 = msgs"
            using m2 by auto
          have "pt_loop (Suc d) dpy t i st = pt_loop (Suc d) dpy t (i + consumed) st3"
            using pt_loop_key [OF c ns p ns1 ps pos True, of d dpy] k(1) by simp
          moreover have "\<exists>j st'. pt_loop (Suc d) dpy t (i + consumed) st3 = Some (j, st')"
            using lt pos le' k(2,3) by (intro less.hyps) simp_all
          ultimately show ?thesis by simp
        next
          case ex: False
          let ?s = "add_log (''SIM: Insert line => '' @ [CHR 0x22] @ ''%s'' @ [CHR 0x22])
                      [ArgStr (expandBuf a)] st2"
          have "splice_at msgs t i = Some (consumed, expandBuf a)"
            using splice_at_parse [OF ps pos ex] m1 by simp
          with hyp lt have e: "char_at t (i + consumed) = CHR 0x00"
            and r: "\<forall>s. g_messages s = msgs \<longrightarrow> (\<exists>s'. parse_and_type d dpy (expandBuf a) s = Some s')"
            by blast+
          have "g_messages ?s = msgs" using m2 by (simp add: to_emits)
          with r obtain st3 where n: "expand_and_parse d dpy (expandBuf a) ?s = Some st3"
            unfolding expand_and_parse_def by blast
          have "pt_loop (Suc d) dpy t i st = pt_loop (Suc d) dpy t (i + consumed) st3"
            using pt_loop_splice [OF c ns p ns1 ps pos ex, of d dpy] n by simp
          also have "\<dots> = Some (i + consumed, st3)"
            using e by (intro pt_loop_stop) simp
          finally show ?thesis by simp
        qed
      qed
    qed
  qed
qed

text \<open>
  Where every message token is the last thing of its text, the interpreter returns: with
  the tokens nested at most \<open>n\<close> deep, \<open>n + 1\<close> activations of \<open>parse_and_type\<close> are
  enough, whatever keys are pressed.
\<close>

lemma nested_returns:
  "nested (g_messages st) n t \<Longrightarrow> \<exists>st'. parse_and_type (Suc n) dpy t st = Some st'"
proof (induction n arbitrary: t st)
  case 0
  have "\<exists>j st'. pt_loop (Suc 0) dpy t 0 (st\<lparr>nodelay := True\<rparr>) = Some (j, st')"
    using 0 by (intro pt_loop_returns [where msgs = "g_messages st"]) (auto simp: list_all_iff)
  then show ?case by (auto simp: parse_and_type_def)
next
  case (Suc n)
  have "\<exists>j st'. pt_loop (Suc (Suc n)) dpy t 0 (st\<lparr>nodelay := True\<rparr>) = Some (j, st')"
  proof (intro pt_loop_returns [where msgs = "g_messages st"] allI impI)
    fix k c e assume k: "k < strlen t" and s: "splice_at (g_messages st) t k = Some (c, e)"
    from Suc.prems k have "case splice_at (g_messages st) t k of None \<Rightarrow> True
        | Some (c, e) \<Rightarrow> char_at t (k + c) = CHR 0x00 \<and> nested (g_messages st) n e"
      by (simp add: list_all_iff)
    with s have "char_at t (k + c) = CHR 0x00" and n: "nested (g_messages st) n e"
      by simp_all
    moreover have "\<exists>s'. parse_and_type (Suc n) dpy e s = Some s'" if "g_messages s = g_messages st" for s
      using Suc.IH [of s e] n that by simp
    ultimately show "char_at t (k + c) = CHR 0x00 \<and>
            (\<forall>s. g_messages s = g_messages st \<longrightarrow> (\<exists>s'. parse_and_type (Suc n) dpy e s = Some s'))"
      by blast
  qed simp_all
  then show ?case by (auto simp: parse_and_type_def)
qed

lemma pt_loop_pass:
  assumes r: "pt_loop (Suc d) dpy t i s = Some (j, st')" and fin: "\<not> g_stopRequested st'"
    and c: "char_at t i \<noteq> CHR 0x00" and gm: "g_messages s = g_messages st"
  shows "\<not> g_stopRequested s \<and>
         (\<exists>s'. loop_body d dpy t i s = Some (advance st t i, s') \<and>
               pt_loop (Suc d) dpy t (i + advance st t i) s' = Some (j, st') \<and>
               g_messages s' = g_messages st)"
proof -
  have ns: "\<not> g_stopRequested s"
    using r fin pt_loop_stop [of t i s d dpy] by auto
  obtain st1 where p: "poll_top s = Some st1"
    using r c ns by (subst (asm) pt_loop.simps) (auto split: option.splits)
  have ns1: "\<not> g_stopRequested st1"
    using r c ns p fin by (subst (asm) pt_loop.simps) (auto split: if_splits)
  obtain consumed action st2 where
    ps: "parse_special_token (drop i t) zero_action st1 = (consumed, action, st2)"
    by (metis prod_cases3)
  have g1: "grows s st1" using poll_getch_Some(3) [OF p] .
  have g2: "grows s st2" using g1 parse_special_token_grows [OF ps] by (rule grows_trans)
  have "g_messages st1 = g_messages st" using g1 gm by (simp add: grows_def)
  then have adv: "advance st t i = (if 0 < consumed then consumed else 1)"
    using ps consumed_cong [of st st1 "drop i t" zero_action zero_action]
    by (simp add: advance_def)
  have "\<exists>s'. loop_body d dpy t i s = Some (advance st t i, s') \<and>
               pt_loop (Suc d) dpy t (i + advance st t i) s' = Some (j, st') \<and> grows s s'"
  proof (cases "0 < consumed")
    case False
    then have z: "consumed = 0" by simp
    let ?s = "usleep 30000 (send_char dpy (char_at t i)
              (add_log (''SIM: Sending char '' @ [CHR 0x27] @ ''%c'' @ [CHR 0x27])
                 [ArgChr (char_at t i)] st2))"
    have "pt_loop (Suc d) dpy t (i + advance st t i) ?s = Some (j, st')"
      using r pt_loop_literal [OF c ns p ns1 ps [unfolded z], of d dpy] adv z by simp
    moreover have "grows s ?s" using g2 by (auto simp: to_emits grows_def)
    moreover have "loop_body d dpy t i s = Some (advance st t i, ?s)"
      using p ns1 ps adv z by (simp add: loop_body_def)
    ultimately show ?thesis by blast
  next
    case True
    note pos = this
    show ?thesis
    proof (cases "useExpand action = 0")
      case True
      from r pt_loop_key [OF c ns p ns1 ps pos True, of d dpy]
      obtain st3 where ka: "key_action dpy action st2 = Some st3"
        and r': "pt_loop (Suc d) dpy t (i + consumed) st3 = Some (j, st')"
        by (auto split: option.splits)
      have "grows s st3" using g2 key_action_grows [OF ka] by (rule grows_trans)
      moreover have "loop_body d dpy t i s = Some (advance st t i, st3)"
        using p ns1 ps adv pos True ka by (simp add: loop_body_def)
      ultimately show ?thesis using r' adv pos by auto
    next
      case False
      from r pt_loop_splice [OF c ns p ns1 ps pos False, of d dpy]
      obtain st3 where e: "expand_and_parse d dpy (expandBuf action)
                 (add_log (''SIM: Insert line => '' @ [CHR 0x22] @ ''%s'' @ [CHR 0x22])
                    [ArgStr (expandBuf action)] st2) = Some st3"
        and r': "pt_loop (Suc d) dpy t (i + consumed) st3 = Some (j, st')"
        by (auto split: option.splits)
      have "grows st2 st3"
        using parse_and_type_grows [OF e [unfolded expand_and_parse_def]]
        by (auto simp: to_emits grows_def)
      with g2 have "grows s st3" by (rule grows_trans)
      moreover have "loop_body d dpy t i s = Some (advance st t i, st3)"
        using p ns1 ps adv pos False e by (simp add: loop_body_def)
      ultimately show ?thesis using r' adv pos by auto
    qed
  qed
  with ns gm show ?thesis by (auto simp: grows_def)
qed

lemma pt_loop_passes:
  assumes "pt_loop (Suc d) dpy t i s = Some (j, st')" and "\<not> g_stopRequested st'"
    and "g_messages s = g_messages st"
  shows "passes d dpy t (scan_from st t i) s = Some st' \<and>
         (\<forall>k < length (scan_from st t i).
            \<exists>s'. passes d dpy t (take k (scan_from st t i)) s = Some s' \<and>
                 pt_loop (Suc d) dpy t (fst (scan_from st t i ! k)) s' = Some (j, st'))"
  using assms
proof (induction st t i arbitrary: s rule: scan_from.induct)
  case (1 st t i)
  show ?case
  proof (cases "char_at t i \<noteq> CHR 0x00")
    case False
    then have "pt_loop (Suc d) dpy t i s = Some (i, s)"
      by (intro pt_loop_stop) simp
    with "1.prems"(1) have "s = st'" by simp
    with False show ?thesis by (subst (1 2 3 4) scan_from.simps) simp
  next
    case True
    from pt_loop_pass [OF "1.prems"(1,2) True "1.prems"(3)]
    obtain s1 where ns: "\<not> g_stopRequested s"
      and b: "loop_body d dpy t i s = Some (advance st t i, s1)"
      and r: "pt_loop (Suc d) dpy t (i + advance st t i) s1 = Some (j, st')"
      and m: "g_messages s1 = g_messages st"
      by blast
    let ?rest = "scan_from st t (i + advance st t i)"
    note ih = "1.IH" [OF True r "1.prems"(2) m]
    have sc: "scan_from st t i = (i, advance st t i) # ?rest"
      using True by (subst scan_from.simps) simp
    have st: "passes d dpy t ((i, advance st t i) # ps) s = passes d dpy t ps s1" for ps
      using True ns b by simp
    have "passes d dpy t (scan_from st t i) s = Some st'"
      unfolding sc st using ih by simp
    moreover have "\<exists>s'. passes d dpy t (take k (scan_from st t i)) s = Some s' \<and>
                 pt_loop (Suc d) dpy t (fst (scan_from st t i ! k)) s' = Some (j, st')"
      if k: "k < length (scan_from st t i)" for k
    proof (cases k)
      case 0
      then show ?thesis using "1.prems"(1) unfolding sc by simp
    next
      case (Suc k')
      with k have "k' < length ?rest" unfolding sc by simp
      with ih obtain s' where "passes d dpy t (take k' ?rest) s1 = Some s'"
        "pt_loop (Suc d) dpy t (fst (?rest ! k')) s' = Some (j, st')"
        by blast
      then show ?thesis unfolding sc Suc by (simp only: take_Suc_Cons nth_Cons_Suc st) blast
    qed
    ultimately show ?thesis by blast
  qed
qed

lemma scan_from_increasing: "sorted_wrt (<) (map fst (scan_from st t i))"
proof (induction st t i rule: scan_from.induct)
  case (1 st t i)
  show ?case
  proof (cases "char_at t i \<noteq> CHR 0x00")
    case False
    then show ?thesis by (subst scan_from.simps) simp
  next
    case True
    have "i < p" if "(p, a) \<in> set (scan_from st t (i + advance st t i))" for p a
      using scan_from_advance [OF that] advance_pos [of st t i] by linarith
    with "1.IH" [OF True] True show ?thesis
      by (subst scan_from.simps) auto
  qed
qed

section \<open>C10: a rejected parse leaves the output record alone\<close>

text \<open>
  C10. Whenever \<open>parse_special_token\<close> returns 0, the record \<open>out\<close> it was given is
  unchanged, whatever it held: the scanner writes the fields of \<open>out\<close> only on the paths
  that return a positive length.
\<close>

theorem scanner_frame:
  assumes "parse_special_token text out st = (0, out', st')"
  shows "out' = out"
  using assms
  by (auto simp: parse_special_token_def Let_def split: if_splits prod.splits
           dest: match_table_frame)

theorem scanner_frame_witness:
  "parse_special_token ''{message7}'' \<lparr>sym_key = 7, holdMs = 9, expandBuf = ''zz'', useExpand = 1\<rparr>
      (ex_state [''hello''] [])
   = (0, \<lparr>sym_key = 7, holdMs = 9, expandBuf = ''zz'', useExpand = 1\<rparr>,
      add_log ''WARN: {message%d} out of range (1..%d)'' [ArgInt 7, ArgInt 1]
        (ex_state [''hello''] []))"
proof -
  obtain c out' st' where r:
    "parse_special_token ''{message7}'' \<lparr>sym_key = 7, holdMs = 9, expandBuf = ''zz'', useExpand = 1\<rparr>
       (ex_state [''hello''] []) = (c, out', st')"
    by (metis prod_cases3)
  have c: "c = 0"
    and s: "st' = add_log ''WARN: {message%d} out of range (1..%d)'' [ArgInt 7, ArgInt 1]
                    (ex_state [''hello''] [])"
    using r
    by (simp_all add: parse_special_token_def read_digits_def isdigit_def atoi_def decimal_def
          ex_state_def Let_def)
  from scanner_frame [OF r [unfolded c]] r c s show ?thesis by simp
qed

section \<open>C2: a keyword must be followed by a closing brace or a colon\<close>

text \<open>
  C2. For a text that starts with an opening brace and one of the nine keywords, the scanner
  accepts only when the keyword is followed at once by a closing brace (a tap, the whole
  token consumed) or by a colon (the hold path: digits, then a closing brace); followed by
  anything else the result is 0, as for \<open>{upward}\<close>. Matching is exact: a text that is
  accepted and is no message token starts with the brace and one of the keywords as they
  are spelled in the table, followed by a closing brace or a colon.
\<close>

theorem keyword_needs_brace_or_colon:
  assumes "(kw, ks) \<in> set key_table"
  shows "parse_special_token (''{'' @ kw @ rest) out st =
     (if char_at rest 0 = CHR ''}'' then
        (length kw + 2, out\<lparr>sym_key := ks, holdMs := 0, useExpand := 0\<rparr>, st)
      else if char_at rest 0 = CHR '':'' \<and> char_at rest (1 + length (read_digits rest 1)) = CHR ''}'' then
        (length kw + 3 + length (read_digits rest 1),
         out\<lparr>sym_key := ks, holdMs := atoi (read_digits rest 1), useExpand := 0\<rparr>, st)
      else (0, out, st))
    \<and> (char_at rest 0 \<noteq> CHR ''}'' \<and> char_at rest 0 \<noteq> CHR '':'' \<longrightarrow>
         fst (parse_special_token (''{'' @ kw @ rest) out st) = 0)
    \<and> (0 < fst (parse_special_token text out st) \<and> take 8 text \<noteq> ''{message'' \<longrightarrow>
         (\<exists>(kw', ks') \<in> set key_table.
             take (1 + length kw') text = ''{'' @ kw' \<and>
             (char_at text (1 + length kw') = CHR ''}'' \<or> char_at text (1 + length kw') = CHR '':'')))"
proof (intro conjI impI)
  show "parse_special_token (''{'' @ kw @ rest) out st =
     (if char_at rest 0 = CHR ''}'' then
        (length kw + 2, out\<lparr>sym_key := ks, holdMs := 0, useExpand := 0\<rparr>, st)
      else if char_at rest 0 = CHR '':'' \<and> char_at rest (1 + length (read_digits rest 1)) = CHR ''}'' then
        (length kw + 3 + length (read_digits rest 1),
         out\<lparr>sym_key := ks, holdMs := atoi (read_digits rest 1), useExpand := 0\<rparr>, st)
      else (0, out, st))"
    using parse_keyword_token [OF assms, of rest out st] by simp
  show "fst (parse_special_token (''{'' @ kw @ rest) out st) = 0"
    if "char_at rest 0 \<noteq> CHR ''}'' \<and> char_at rest 0 \<noteq> CHR '':''"
    using that parse_keyword_token [OF assms, of rest out st] by simp
next
  assume h: "0 < fst (parse_special_token text out st) \<and> take 8 text \<noteq> ''{message''"
  obtain c out' where m: "match_table key_table text out = (c, out')"
    by (cases "match_table key_table text out")
  from h have b: "char_at text 0 = CHR ''{''" and c: "0 < c"
    using m by (auto simp: parse_special_token_def split: if_splits)
  from b obtain tl where t: "text = CHR ''{'' # tl"
    by (cases "text") (auto simp: char_at_def)
  from match_table_accepts [OF m c] show "\<exists>(kw', ks') \<in> set key_table.
             take (1 + length kw') text = ''{'' @ kw' \<and>
             (char_at text (1 + length kw') = CHR ''}'' \<or> char_at text (1 + length kw') = CHR '':'')"
    unfolding t by auto
qed

theorem keyword_needs_brace_or_colon_witness:
  "(''up'', XK_Up) \<in> set key_table
   \<and> fst (parse_special_token ''{upward}'' zero_action (ex_state [] [])) = 0
   \<and> parse_special_token ''{up}x'' zero_action (ex_state [] [])
       = (4, zero_action\<lparr>sym_key := XK_Up\<rparr>, ex_state [] [])
   \<and> parse_special_token ''{up:250}'' zero_action (ex_state [] [])
       = (8, zero_action\<lparr>sym_key := XK_Up, holdMs := 250\<rparr>, ex_state [] [])
   \<and> fst (parse_special_token ''{up 1}'' zero_action (ex_state [] [])) = 0"
proof -
  have k: "(''up'', XK_Up) \<in> set key_table"
    by (simp add: key_table_def)
  have d: "read_digits '':250}'' (Suc 0) = ''250''"
    by (simp add: read_digits_def isdigit_def)
  have a: "atoi ''250'' = 250"
    by (simp add: atoi_def decimal_def)
  show ?thesis
    using k
      keyword_needs_brace_or_colon [OF k, of "''ward}''" zero_action "ex_state [] []" "''{up}''"]
      keyword_needs_brace_or_colon [OF k, of "''}x''" zero_action "ex_state [] []" "''{up}''"]
      keyword_needs_brace_or_colon [OF k, of "'':250}''" zero_action "ex_state [] []" "''{up}''"]
      keyword_needs_brace_or_colon [OF k, of "'' 1}''" zero_action "ex_state [] []" "''{up}''"]
    by (simp add: d a zero_action_def)
qed

section \<open>C9: a hold with no digits is a quick press\<close>

text \<open>
  C9. For each of the nine keywords \<open>k\<close>, the token \<open>{k:}\<close> (a colon and at once the
  closing brace) is accepted: the scanner consumes the whole token, sets the key of \<open>k\<close>
  and a hold time of 0 (\<open>atoi\<close> of the empty string). The interpreter takes the branch
  of the quick press for it: at a position of a script where the token stands, a step of
  the loop presses and releases the key and goes on after the token.
\<close>

theorem empty_hold_is_tap:
  assumes "(kw, ks) \<in> set key_table"
  shows "parse_special_token (''{'' @ kw @ '':}'' @ rest) out st
           = (length kw + 3, out\<lparr>sym_key := ks, holdMs := 0, useExpand := 0\<rparr>, st)
    \<and> key_action dpy (out\<lparr>sym_key := ks, holdMs := 0, useExpand := 0\<rparr>) st
           = Some (pressKey dpy ks (add_log ''SIM: Quick press KeySym=0x%lx'' [ArgHex ks] st))
    \<and> (drop i script = ''{'' @ kw @ '':}'' @ rest \<and> \<not> g_stopRequested st
         \<and> poll_top st = Some st1 \<and> \<not> g_stopRequested st1 \<longrightarrow>
        pt_loop (Suc d) dpy script i st =
          pt_loop (Suc d) dpy script (i + (length kw + 3))
            (pressKey dpy ks (add_log ''SIM: Quick press KeySym=0x%lx'' [ArgHex ks] st1)))"
proof (intro conjI impI)
  have rd: "read_digits (CHR '':'' # CHR ''}'' # rest) (Suc 0) = []"
    by (simp add: read_digits_def isdigit_def)
  have at0: "atoi [] = 0"
    by (simp add: atoi_def decimal_def)
  show p: "parse_special_token (''{'' @ kw @ '':}'' @ rest) out st
           = (length kw + 3, out\<lparr>sym_key := ks, holdMs := 0, useExpand := 0\<rparr>, st)" for out st
    using parse_keyword_token [OF assms, of "'':}'' @ rest" out st]
    by (simp add: rd at0)
  show k: "key_action dpy (out\<lparr>sym_key := ks, holdMs := 0, useExpand := 0\<rparr>) st
           = Some (pressKey dpy ks (add_log ''SIM: Quick press KeySym=0x%lx'' [ArgHex ks] st))" for out st
    by (simp add: key_action_def)
  assume h: "drop i script = ''{'' @ kw @ '':}'' @ rest \<and> \<not> g_stopRequested st
         \<and> poll_top st = Some st1 \<and> \<not> g_stopRequested st1"
  then have "char_at (drop i script) 0 = CHR ''{''"
    by simp
  then have c: "char_at script i \<noteq> CHR 0x00"
    by (simp add: char_at_drop)
  have z: "zero_action\<lparr>sym_key := ks, holdMs := 0, useExpand := 0\<rparr> = zero_action\<lparr>sym_key := ks\<rparr>"
    by (simp add: zero_action_def)
  from h have "parse_special_token (drop i script) zero_action st1
       = (length kw + 3, zero_action\<lparr>sym_key := ks, holdMs := 0, useExpand := 0\<rparr>, st1)"
    using p by simp
  from pt_loop_key [OF c _ _ _ this, of st d dpy] h
  show "pt_loop (Suc d) dpy script i st =
          pt_loop (Suc d) dpy script (i + (length kw + 3))
            (pressKey dpy ks (add_log ''SIM: Quick press KeySym=0x%lx'' [ArgHex ks] st1))"
    by (simp add: k)
qed

theorem empty_hold_is_tap_witness:
  "(''up'', XK_Up) \<in> set key_table
   \<and> parse_special_token ''{up:}'' zero_action ((ex_state [] [])\<lparr>nodelay := True\<rparr>)
        = (5, zero_action\<lparr>sym_key := XK_Up\<rparr>, (ex_state [] [])\<lparr>nodelay := True\<rparr>)
   \<and> map_option trace (parse_and_type 1 ex_dpy ''{up:}'' (ex_state [] [])) =
       Some [Log ''SIM: Quick press KeySym=0x%lx'' [ArgHex XK_Up],
             XTestFakeKeyEvent 90 True, Usleep 30000, XTestFakeKeyEvent 90 False, Usleep 30000]"
proof -
  have k: "(''up'', XK_Up) \<in> set key_table"
    by (simp add: key_table_def)
  let ?st = "(ex_state [] [])\<lparr>nodelay := True\<rparr>"
  have poll: "poll_top ?st = Some ?st"
    by (simp add: poll_getch_def ex_state_def)
  have ns: "\<not> g_stopRequested ?st"
    by (simp add: ex_state_def)
  note t = empty_hold_is_tap [OF k, where rest = "[]" and out = zero_action and st = ?st
      and dpy = ex_dpy and i = 0 and script = "''{up:}''" and ?st1.0 = ?st and d = 0]
  have kc: "XKeysymToKeycode ex_dpy XK_Up = 90"
    by (simp add: ex_dpy_def XK_Up_def)
  have "pt_loop (Suc 0) ex_dpy ''{up:}'' 0 ?st =
          pt_loop (Suc 0) ex_dpy ''{up:}'' 5
            (pressKey ex_dpy XK_Up (add_log ''SIM: Quick press KeySym=0x%lx'' [ArgHex XK_Up] ?st))"
    using t poll ns by simp
  also have "\<dots> = Some (5, pressKey ex_dpy XK_Up (add_log ''SIM: Quick press KeySym=0x%lx'' [ArgHex XK_Up] ?st))"
    by (rule pt_loop_stop) simp
  finally have "map_option trace (parse_and_type 1 ex_dpy ''{up:}'' (ex_state [] [])) =
       Some [Log ''SIM: Quick press KeySym=0x%lx'' [ArgHex XK_Up],
             XTestFakeKeyEvent 90 True, Usleep 30000, XTestFakeKeyEvent 90 False, Usleep 30000]"
    by (simp add: parse_and_type_def to_emits tap_events_def down_events_def up_events_def kc ex_state_def)
  with k t show ?thesis
    by (simp add: zero_action_def)
qed

section \<open>C4: a hold presses once and releases once, also when cancelled\<close>

text \<open>
  C4. When the loop of the interpreter dispatches a hold (the scanner returned a key token
  with a positive hold time), the call of \<open>pressKeyDown\<close> comes first, then the wait,
  which only sleeps and logs key presses of the user, then the call of \<open>pressKeyUp\<close> and a
  last sleep: the wait always ends and the release is issued whatever keys arrive during the
  hold, F2 included. On the wire that is exactly one press followed by one release of the key's
  code (none of either when the key has no key code). When the stop flag is set after the
  release, the loop returns at once, at the position after the token.
\<close>

theorem hold_press_release:
  assumes "char_at script i \<noteq> CHR 0x00" and "\<not> g_stopRequested st"
    and "poll_top st = Some st1" and "\<not> g_stopRequested st1"
    and "parse_special_token (drop i script) zero_action st1 = (consumed, action, st2)"
    and "0 < consumed" and "useExpand action = 0" and "0 < holdMs action"
  shows "\<exists>st3 ws.
      key_action dpy action st2 = Some st3
    \<and> pt_loop (Suc d) dpy script i st = pt_loop (Suc d) dpy script (i + consumed) st3
    \<and> trace st3 = trace st2
         @ [Log ''SIM: Holding KeySym=0x%lx for %d ms'' [ArgHex (sym_key action), ArgInt (holdMs action)]]
         @ down_events dpy (sym_key action) @ ws @ up_events dpy (sym_key action) @ [Usleep 30000]
    \<and> (\<forall>e \<in> set ws. noise e)
    \<and> key_events (trace st3) = key_events (trace st)
         @ (if XKeysymToKeycode dpy (sym_key action) = 0 then []
            else [XTestFakeKeyEvent (XKeysymToKeycode dpy (sym_key action)) True,
                  XTestFakeKeyEvent (XKeysymToKeycode dpy (sym_key action)) False])
    \<and> (g_stopRequested st3 \<longrightarrow>
          pt_loop (Suc d) dpy script i st = Some (i + consumed, st3))"
proof -
  let ?hold = "Log ''SIM: Holding KeySym=0x%lx for %d ms'' [ArgHex (sym_key action), ArgInt (holdMs action)]"
  let ?s = "pressKeyDown dpy (sym_key action)
              (add_log ''SIM: Holding KeySym=0x%lx for %d ms''
                 [ArgHex (sym_key action), ArgInt (holdMs action)] st2)"
  note p = poll_getch_Some [OF assms(3)]
  obtain w1 where w1: "trace st1 = trace st @ w1" "\<forall>e \<in> set w1. noise e"
    using p(4) by blast
  obtain w2 where w2: "st2 = emits w2 st1" "key_events w2 = []"
    using parse_special_token_state [OF assms(5)] by blast
  have s: "?s = emits (?hold # down_events dpy (sym_key action)) st2"
    by (simp add: to_emits)
  have "nodelay ?s"
    using p(2) w2(1) by (simp add: to_emits)
  from hold_wait_Some [OF this, of "holdMs action"]
  obtain st' ws where h: "hold_wait (holdMs action) ?s = Some st'"
    "trace st' = trace ?s @ ws" "\<forall>e \<in> set ws. noise e"
    by blast
  let ?st3 = "usleep 30000 (pressKeyUp dpy (sym_key action) st')"
  have ka: "key_action dpy action st2 = Some ?st3"
    using assms(8) h(1) by (simp add: key_action_def)
  have step: "pt_loop (Suc d) dpy script i st = pt_loop (Suc d) dpy script (i + consumed) ?st3"
    using pt_loop_key [OF assms(1-7), of d dpy] ka by simp
  have tr: "trace ?st3 = trace st2 @ [?hold] @ down_events dpy (sym_key action) @ ws
                @ up_events dpy (sym_key action) @ [Usleep 30000]"
    using h(2) by (simp add: to_emits)
  have ke: "key_events (trace ?st3) = key_events (trace st)
         @ (if XKeysymToKeycode dpy (sym_key action) = 0 then []
            else [XTestFakeKeyEvent (XKeysymToKeycode dpy (sym_key action)) True,
                  XTestFakeKeyEvent (XKeysymToKeycode dpy (sym_key action)) False])"
    unfolding tr using w1 w2 h(3)
    by (simp add: key_events_noise down_events_def up_events_def)
  have stop: "pt_loop (Suc d) dpy script i st = Some (i + consumed, ?st3)" if "g_stopRequested ?st3"
    using step pt_loop_stop [of script "i + consumed" ?st3 d dpy] that by simp
  show ?thesis
    using ka step tr h(3) ke stop by blast
qed

theorem hold_press_release_witness:
  "parse_and_type (Suc 0) ex_dpy ''{up:500}x'' (ex_state [] [ERR, KEY_F 2]) =
     Some \<lparr>g_stopRequested = True, g_messages = [], nodelay = False, input = [],
           trace = [Log ''SIM: Holding KeySym=0x%lx for %d ms'' [ArgHex XK_Up, ArgInt 500],
                    XTestFakeKeyEvent 90 True, Usleep 50000, Log ''F2 pressed => STOP'' [],
                    XTestFakeKeyEvent 90 False, Usleep 30000]\<rparr>"
proof -
  let ?st = "(ex_state [] [ERR, KEY_F 2])\<lparr>nodelay := True\<rparr>"
  let ?st1 = "(ex_state [] [KEY_F 2])\<lparr>nodelay := True\<rparr>"
  let ?act = "zero_action\<lparr>sym_key := XK_Up, holdMs := 500\<rparr>"
  let ?fin = "\<lparr>g_stopRequested = True, g_messages = [], nodelay = True, input = [],
           trace = [Log ''SIM: Holding KeySym=0x%lx for %d ms'' [ArgHex XK_Up, ArgInt 500],
                    XTestFakeKeyEvent 90 True, Usleep 50000, Log ''F2 pressed => STOP'' [],
                    XTestFakeKeyEvent 90 False, Usleep 30000]\<rparr>"
  have k: "(''up'', XK_Up) \<in> set key_table"
    by (simp add: key_table_def)
  have a1: "char_at ''{up:500}x'' 0 \<noteq> CHR 0x00" by simp
  have a2: "\<not> g_stopRequested ?st" by (simp add: ex_state_def)
  have a3: "poll_top ?st = Some ?st1"
    by (simp add: poll_getch_def ex_state_def)
  have a4: "\<not> g_stopRequested ?st1" by (simp add: ex_state_def)
  have d: "read_digits '':500}x'' (Suc 0) = ''500''"
    by (simp add: read_digits_def isdigit_def)
  have a5: "parse_special_token (drop 0 ''{up:500}x'') zero_action ?st1 = (8, ?act, ?st1)"
    using parse_keyword_token [OF k, of "'':500}x''" zero_action ?st1]
    by (simp add: d atoi_def decimal_def zero_action_def)
  have a7: "useExpand ?act = 0" and a8: "0 < holdMs ?act"
    by (simp_all add: zero_action_def)
  have kc: "XKeysymToKeycode ex_dpy XK_Up = 90"
    by (simp add: ex_dpy_def XK_Up_def)
  have ka: "key_action ex_dpy ?act ?st1 = Some ?fin"
    by (simp add: key_action_def hold_wait.simps poll_getch_def to_emits down_events_def
          up_events_def kc ex_state_def zero_action_def emits_def ERR_def KEY_F_def)
  from hold_press_release [OF a1 a2 a3 a4 a5 _ a7 a8, of ex_dpy 0]
  obtain st3 where "key_action ex_dpy ?act ?st1 = Some st3"
    "g_stopRequested st3 \<longrightarrow> pt_loop (Suc 0) ex_dpy ''{up:500}x'' 0 ?st = Some (0 + 8, st3)"
    by auto
  with ka have "pt_loop (Suc 0) ex_dpy ''{up:500}x'' 0 ?st = Some (8, ?fin)"
    by simp
  then show ?thesis
    by (simp add: parse_and_type_def)
qed

section \<open>C5: the stop flag is reset at the start of a run and never cleared after\<close>



section \<open>C7: a script without directives is typed once per iteration\<close>

text \<open>
  C7. Take a script at no position of which the scanner accepts a token, and an input in
  which F2 never comes. Then \<open>simulate_typing\<close> returns, with the stop flag clear, for
  every loop count, start delay and loop delay, and the events it adds to the trace are
  such that: the characters given to \<open>send_char\<close> are the script repeated \<open>loops\<close>
  times, which is \<open>loops * |script|\<close> characters; the key events are those of each
  character in turn, a character without key symbol giving none (it is logged and skipped,
  and the next character follows); the loop delay is entered \<open>loops - 1\<close> times when it
  is positive, and never otherwise; each iteration begins once; and the last lines are the
  end of the last iteration followed by the line of completion, with no delay in between.
\<close>

theorem literal_script_counts:
  assumes "\<forall>i < strlen script. fst (parse_special_token (drop i script) zero_action st) = 0"
    and "KEY_F 2 \<notin> set (input st)"
  shows "\<exists>st' ws.
      simulate_typing (Suc d) dpy script loops sd ld st = Some st' \<and> \<not> g_stopRequested st'
    \<and> trace st' = trace st @ ws
    \<and> typed ws = concat (replicate (nat loops) (cstr script))
    \<and> length (typed ws) = nat loops * strlen script
    \<and> key_events ws =
         concat (replicate (nat loops)
           (concat (map (\<lambda>c. key_events (send_events dpy c)) (cstr script))))
    \<and> (\<forall>c. map_char_to_keysym dpy c = NoSymbol \<longrightarrow> key_events (send_events dpy c) = [])
    \<and> count_log ''SIM: Sleeping %d ms before next loop...'' ws = (if 0 < ld then nat loops - 1 else 0)
    \<and> count_log ''SIM: Loop %d/%d begin'' ws = nat loops
    \<and> (\<exists>ws'. ws = ws' @ (if 0 < loops
                          then [Log ''SIM: Loop %d/%d done'' [ArgInt loops, ArgInt loops]]
                          else [])
                   @ [Log ''SIM: All loops completed successfully.'' []])"
proof -
  let ?start = "Log (''SIM: StartDelay=%d, LoopDelay=%d, Loops=%d, text='' @ [CHR 0x27] @ ''%s'' @ [CHR 0x27])
           [ArgInt sd, ArgInt ld, ArgInt loops, ArgStr (cstr script)]"
  let ?st0 = "(add_log (''SIM: StartDelay=%d, LoopDelay=%d, Loops=%d, text='' @ [CHR 0x27] @ ''%s'' @ [CHR 0x27])
           [ArgInt sd, ArgInt ld, ArgInt loops, ArgStr (cstr script)] st)
          \<lparr>g_stopRequested := False\<rparr>"
  have u0: "uncancelled ?st0" using assms(2) by (simp add: to_emits)
  have t0: "trace ?st0 = trace st @ [?start]" by (simp add: to_emits)
  have nd: "\<forall>i < strlen script. fst (parse_special_token (drop i script) zero_action s) = 0"
    if "g_messages s = g_messages st" for s
  proof (intro allI impI)
    fix i assume "i < strlen script"
    moreover have "fst (parse_special_token (drop i script) zero_action s)
          = fst (parse_special_token (drop i script) zero_action st)"
      using that by (rule consumed_cong)
    ultimately show "fst (parse_special_token (drop i script) zero_action s) = 0"
      using assms(1) by simp
  qed
  have "\<exists>s1 pw. uncancelled s1 \<and> g_messages s1 = g_messages st \<and> trace s1 = trace st @ pw \<and>
          typed pw = [] \<and> key_events pw = [] \<and>
          count_log ''SIM: Sleeping %d ms before next loop...'' pw = 0 \<and>
          count_log ''SIM: Loop %d/%d begin'' pw = 0 \<and>
          after_reset (Suc d) dpy script loops sd ld ?st0 = run_loops (Suc d) dpy script loops ld s1"
  proof (cases "0 < sd")
    case False
    then have "after_reset (Suc d) dpy script loops sd ld ?st0 = run_loops (Suc d) dpy script loops ld ?st0"
      by (simp add: after_reset_def)
    with u0 t0 show ?thesis
      by (intro exI [of _ ?st0] exI [of _ "[?start]"]) (simp add: to_emits)
  next
    case True
    let ?s = "(add_log ''SIM: Sleeping %d ms before typing...'' [ArgInt sd] ?st0)\<lparr>nodelay := True\<rparr>"
    have "calm ?s" using assms(2) by (simp add: calm_uncancelled to_emits)
    from delay_wait_calm [OF this]
    obtain st1 dw where dl: "start_delay sd ?st0 = Some st1" "calm st1"
      "g_messages st1 = g_messages ?s" "trace st1 = trace ?s @ dw" "\<forall>e \<in> set dw. noise e"
      by blast
    let ?s1 = "st1\<lparr>nodelay := False\<rparr>"
    have ns: "\<not> g_stopRequested st1" using dl(2) by (simp add: calm_def)
    have "after_reset (Suc d) dpy script loops sd ld ?st0 = run_loops (Suc d) dpy script loops ld ?s1"
      using True dl(1) ns by (simp add: after_reset_def Let_def)
    moreover have "uncancelled ?s1" using dl(2) by (simp add: calm_uncancelled)
    moreover have "g_messages ?s1 = g_messages st" using dl(3) by (simp add: to_emits)
    moreover have "trace ?s1 = trace st @ ([?start, Log ''SIM: Sleeping %d ms before typing...'' [ArgInt sd]] @ dw)"
      using dl(4) by (simp add: to_emits)
    ultimately show ?thesis
      using dl(5)
      by (intro exI [of _ ?s1]
            exI [of _ "[?start, Log ''SIM: Sleeping %d ms before typing...'' [ArgInt sd]] @ dw"])
         (simp add: typed_noise key_events_noise count_log_noise)
  qed
  then obtain s1 pw where s1: "uncancelled s1" "g_messages s1 = g_messages st"
    "trace s1 = trace st @ pw" "typed pw = []" "key_events pw = []"
    "count_log ''SIM: Sleeping %d ms before next loop...'' pw = 0"
    "count_log ''SIM: Loop %d/%d begin'' pw = 0"
    "after_reset (Suc d) dpy script loops sd ld ?st0 = run_loops (Suc d) dpy script loops ld s1"
    by blast
  from run_loops_literal [OF s1(1) nd [OF s1(2)], of d dpy loops ld]
  obtain st' rw where r: "run_loops (Suc d) dpy script loops ld s1 = Some st'"
    "\<not> g_stopRequested st'" "trace st' = trace s1 @ rw" "iter_trace dpy script ld (nat loops) rw"
    "\<exists>ws'. rw = ws' @ (if 0 < loops
                          then [Log ''SIM: Loop %d/%d done'' [ArgInt loops, ArgInt loops]]
                          else [])
                   @ [Log ''SIM: All loops completed successfully.'' []]"
    by blast
  from r(5) obtain ws' where w: "rw = ws' @ (if 0 < loops
                          then [Log ''SIM: Loop %d/%d done'' [ArgInt loops, ArgInt loops]]
                          else [])
                   @ [Log ''SIM: All loops completed successfully.'' []]"
    by blast
  have a: "simulate_typing (Suc d) dpy script loops sd ld st = Some st'"
    using s1(8) r(1) by (simp add: simulate_typing_def)
  have b: "trace st' = trace st @ (pw @ rw)" using s1(3) r(3) by simp
  have c: "typed (pw @ rw) = concat (replicate (nat loops) (cstr script))"
    "key_events (pw @ rw) = concat (replicate (nat loops)
           (concat (map (\<lambda>c. key_events (send_events dpy c)) (cstr script))))"
    "count_log ''SIM: Sleeping %d ms before next loop...'' (pw @ rw) = (if 0 < ld then nat loops - 1 else 0)"
    "count_log ''SIM: Loop %d/%d begin'' (pw @ rw) = nat loops"
    using r(4) s1(4-7) by (simp_all add: iter_trace_def)
  have l: "length (typed (pw @ rw)) = nat loops * strlen script"
    unfolding c(1) by (simp add: length_concat_replicate strlen_def)
  have e: "\<exists>ws''. pw @ rw = ws'' @ (if 0 < loops
                          then [Log ''SIM: Loop %d/%d done'' [ArgInt loops, ArgInt loops]]
                          else [])
                   @ [Log ''SIM: All loops completed successfully.'' []]"
    by (intro exI [of _ "pw @ ws'"]) (simp add: w)
  show ?thesis
    using a r(2) b c l e unmappable_no_keys [of dpy]
    by (intro exI [of _ st'] exI [of _ "pw @ rw"]) blast
qed

theorem literal_script_counts_witness:
  "\<exists>st' ws.
      simulate_typing (Suc 0) ex_dpy ''aA'' 2 0 100 (ex_state [] []) = Some st'
    \<and> \<not> g_stopRequested st' \<and> trace st' = ws
    \<and> typed ws = ''aAaA''
    \<and> key_events ws = [XTestFakeKeyEvent 105 True, XTestFakeKeyEvent 105 False,
                        XTestFakeKeyEvent 105 True, XTestFakeKeyEvent 105 False]
    \<and> count_log ''SIM: Sleeping %d ms before next loop...'' ws = 1
    \<and> count_log ''SIM: Loop %d/%d begin'' ws = 2"
proof -
  have l: "strlen ''aA'' = Suc (Suc 0)" and cs: "cstr ''aA'' = ''aA''"
    by (simp_all add: strlen_def cstr_def)
  have h1: "\<forall>i < strlen ''aA''. fst (parse_special_token (drop i ''aA'') zero_action (ex_state [] [])) = 0"
    unfolding l by (auto simp: less_Suc_eq parse_special_token_def)
  have h2: "KEY_F 2 \<notin> set (input (ex_state [] []))"
    by (simp add: ex_state_def)
  have ka: "key_events (send_events ex_dpy CHR ''a'') = [XTestFakeKeyEvent 105 True, XTestFakeKeyEvent 105 False]"
    by (simp add: send_events_def map_char_to_keysym_def punct_table_def ex_dpy_def isdigit_def
          NoSymbol_def tap_events_def down_events_def up_events_def)
  have kA: "key_events (send_events ex_dpy CHR ''A'') = []"
    by (simp add: send_events_def map_char_to_keysym_def punct_table_def ex_dpy_def isdigit_def
          NoSymbol_def)
  have tr: "trace (ex_state [] []) = []" by (simp add: ex_state_def)
  from literal_script_counts [OF h1 h2, of 0 ex_dpy 2 0 100]
  show ?thesis
    by (auto simp: cs ka kA tr numeral_2_eq_2)
qed

section \<open>C6: cancellation during a delay ends the run\<close>

text \<open>
  C6, as the code has it. When the start delay ends with the stop flag set, the run returns
  with one more log line, \<open>Aborted before typing began\<close>: between the first line of the run
  and that line the trace holds the line announcing the delay and the sleeps and poll lines
  of the delay, so the interpreter is never called (the result is the same with no nesting
  allowed at all). When the \<open>for\<close> loop has arrived at iteration \<open>k = l + 1\<close>, the
  interpreter has returned without cancellation, and the delay that follows ends with the
  stop flag set, the run returns with exactly two more log lines after the delay:
  \<open>Aborted between loops at loop k/loops\<close>, which reports the index, and then the terminal
  line \<open>Stopped by user (F2).\<close>, which has no argument. Iterations \<open>k + 1\<close> to
  \<open>loops\<close> do not run.

  The claim as stated has the terminal line report the index:
  \<open>cancel_in_delay_stops_run_counterexample\<close> is a run of three iterations cancelled in the
  delay after the first, whose last line is \<open>Stopped by user (F2).\<close> and carries no index;
  the index 1 is in the line before it.
\<close>

theorem cancel_in_delay_stops_run:
  "(0 < sd \<and> start_delay sd (started script loops sd ld st) = Some st1 \<and> g_stopRequested st1 \<longrightarrow>
      simulate_typing d dpy script loops sd ld st =
        Some (add_log ''SIM: Aborted before typing began.'' [] (st1\<lparr>nodelay := False\<rparr>))
      \<and> (\<exists>dw. trace st1 = trace (started script loops sd ld st)
                   @ [Log ''SIM: Sleeping %d ms before typing...'' [ArgInt sd]] @ dw
              \<and> (\<forall>e \<in> set dw. noise e)))
   \<and> (loop_head d dpy script loops ld st0 l s \<and> l < loops \<and> \<not> g_stopRequested s \<and>
       parse_and_type d dpy script
         (add_log ''SIM: Loop %d/%d begin'' [ArgInt (l + 1), ArgInt loops] s) = Some s1 \<and>
       \<not> g_stopRequested s1 \<and> l < loops - 1 \<and> 0 < ld \<and>
       loop_delay ld (add_log ''SIM: Loop %d/%d done'' [ArgInt (l + 1), ArgInt loops] s1) = Some s3 \<and>
       g_stopRequested s3 \<longrightarrow>
      run_loops d dpy script loops ld st0 =
        Some (add_log ''SIM: Stopped by user (F2).'' []
               (add_log ''SIM: Aborted between loops at loop %d/%d'' [ArgInt (l + 1), ArgInt loops]
                  (s3\<lparr>nodelay := False\<rparr>)))
      \<and> (\<exists>dw. trace s3 = trace s1
                   @ [Log ''SIM: Loop %d/%d done'' [ArgInt (l + 1), ArgInt loops],
                      Log ''SIM: Sleeping %d ms before next loop...'' [ArgInt ld]] @ dw
              \<and> (\<forall>e \<in> set dw. noise e)))"
proof (intro conjI impI)
  assume h: "0 < sd \<and> start_delay sd (started script loops sd ld st) = Some st1 \<and> g_stopRequested st1"
  then show "simulate_typing d dpy script loops sd ld st =
        Some (add_log ''SIM: Aborted before typing began.'' [] (st1\<lparr>nodelay := False\<rparr>))"
    by (simp add: simulate_typing_started after_reset_def Let_def)
  let ?s = "(add_log ''SIM: Sleeping %d ms before typing...'' [ArgInt sd]
              (started script loops sd ld st))\<lparr>nodelay := True\<rparr>"
  have "nodelay ?s" by simp
  from delay_wait_Some [OF this, of "''F2 pressed => STOP requested (before we start typing)''"
      "''F1 pressed => resetting fields (pre-typing)''" sd] h
  obtain dw where "trace st1 = trace ?s @ dw" "\<forall>e \<in> set dw. noise e"
    by auto
  then show "\<exists>dw. trace st1 = trace (started script loops sd ld st)
                   @ [Log ''SIM: Sleeping %d ms before typing...'' [ArgInt sd]] @ dw
              \<and> (\<forall>e \<in> set dw. noise e)"
    by (intro exI [of _ dw]) (simp add: to_emits)
next
  assume h: "loop_head d dpy script loops ld st0 l s \<and> l < loops \<and> \<not> g_stopRequested s \<and>
       parse_and_type d dpy script
         (add_log ''SIM: Loop %d/%d begin'' [ArgInt (l + 1), ArgInt loops] s) = Some s1 \<and>
       \<not> g_stopRequested s1 \<and> l < loops - 1 \<and> 0 < ld \<and>
       loop_delay ld (add_log ''SIM: Loop %d/%d done'' [ArgInt (l + 1), ArgInt loops] s1) = Some s3 \<and>
       g_stopRequested s3"
  then have "for_loops d dpy script loops ld l s =
      Some (add_log ''SIM: Aborted between loops at loop %d/%d'' [ArgInt (l + 1), ArgInt loops]
                  (s3\<lparr>nodelay := False\<rparr>))"
    using for_loops_delay [of l loops s d dpy script s1 ld] by simp
  moreover have "for_loops d dpy script loops ld 0 st0 = for_loops d dpy script loops ld l s"
    using h loop_head_for_loops by blast
  ultimately show "run_loops d dpy script loops ld st0 =
        Some (add_log ''SIM: Stopped by user (F2).'' []
               (add_log ''SIM: Aborted between loops at loop %d/%d'' [ArgInt (l + 1), ArgInt loops]
                  (s3\<lparr>nodelay := False\<rparr>)))"
    using h by (simp add: run_loops_def to_emits)
  let ?s = "(add_log ''SIM: Sleeping %d ms before next loop...'' [ArgInt ld]
              (add_log ''SIM: Loop %d/%d done'' [ArgInt (l + 1), ArgInt loops] s1))\<lparr>nodelay := True\<rparr>"
  have "nodelay ?s" by simp
  from delay_wait_Some [OF this, of "''F2 pressed => STOP requested (between loops)''"
      "''F1 pressed => resetting fields (between loops)''" ld] h
  obtain dw where "trace s3 = trace ?s @ dw" "\<forall>e \<in> set dw. noise e"
    by auto
  then show "\<exists>dw. trace s3 = trace s1
                   @ [Log ''SIM: Loop %d/%d done'' [ArgInt (l + 1), ArgInt loops],
                      Log ''SIM: Sleeping %d ms before next loop...'' [ArgInt ld]] @ dw
              \<and> (\<forall>e \<in> set dw. noise e)"
    by (intro exI [of _ dw]) (simp add: to_emits)
qed

theorem cancel_in_delay_stops_run_counterexample:
  "\<exists>st'. simulate_typing (Suc 0) ex_dpy ''a'' 3 0 100 (ex_state [] [ERR, KEY_F 2, ERR]) = Some st'
     \<and> g_stopRequested st'
     \<and> last (trace st') = Log ''SIM: Stopped by user (F2).'' []
     \<and> \<not> reports_index (last (trace st')) 1
     \<and> last (butlast (trace st')) = Log ''SIM: Aborted between loops at loop %d/%d'' [ArgInt 1, ArgInt 3]
     \<and> count_log ''SIM: Loop %d/%d begin'' (trace st') = 1"
  by (simp add: simulate_typing_def after_reset_def run_loops_def for_loops.simps
        parse_and_type_def pt_loop.simps delay_wait.simps poll_getch_def parse_special_token_def
        to_emits send_events_def tap_events_def down_events_def up_events_def
        map_char_to_keysym_def punct_table_def NoSymbol_def isdigit_def
        ex_state_def ex_dpy_def emits_def ERR_def KEY_F_def)

theorem cancel_in_delay_stops_run_witness:
  "(\<exists>s1 s3.
      parse_and_type (Suc 0) ex_dpy ''a''
        (add_log ''SIM: Loop %d/%d begin'' [ArgInt (0 + 1), ArgInt 3]
           (started ''a'' 3 0 100 (ex_state [] [ERR, KEY_F 2, ERR]))) = Some s1
    \<and> \<not> g_stopRequested s1
    \<and> loop_delay 100 (add_log ''SIM: Loop %d/%d done'' [ArgInt (0 + 1), ArgInt 3] s1) = Some s3
    \<and> g_stopRequested s3
    \<and> simulate_typing (Suc 0) ex_dpy ''a'' 3 0 100 (ex_state [] [ERR, KEY_F 2, ERR]) =
        Some (add_log ''SIM: Stopped by user (F2).'' []
               (add_log ''SIM: Aborted between loops at loop %d/%d'' [ArgInt (0 + 1), ArgInt 3]
                  (s3\<lparr>nodelay := False\<rparr>))))
   \<and> (\<exists>st1.
      start_delay 100 (started ''a'' 3 100 0 (ex_state [] [KEY_F 2])) = Some st1
    \<and> g_stopRequested st1
    \<and> simulate_typing 0 ex_dpy ''a'' 3 100 0 (ex_state [] [KEY_F 2]) =
        Some (add_log ''SIM: Aborted before typing began.'' [] (st1\<lparr>nodelay := False\<rparr>)))"
proof (intro conjI)
  let ?st0 = "started ''a'' 3 0 100 (ex_state [] [ERR, KEY_F 2, ERR])"
  have ns0: "\<not> g_stopRequested ?st0" by (simp add: started_def)
  have "\<exists>s1. parse_and_type (Suc 0) ex_dpy ''a''
        (add_log ''SIM: Loop %d/%d begin'' [ArgInt (0 + 1), ArgInt 3] ?st0) = Some s1
      \<and> \<not> g_stopRequested s1
      \<and> (\<exists>s3. loop_delay 100 (add_log ''SIM: Loop %d/%d done'' [ArgInt (0 + 1), ArgInt 3] s1) = Some s3
            \<and> g_stopRequested s3)"
    by (simp add: started_def parse_and_type_def pt_loop.simps delay_wait.simps poll_getch_def
          parse_special_token_def to_emits ex_state_def emits_def ERR_def KEY_F_def)
  then obtain s1 s3 where e:
    "parse_and_type (Suc 0) ex_dpy ''a''
        (add_log ''SIM: Loop %d/%d begin'' [ArgInt (0 + 1), ArgInt 3] ?st0) = Some s1"
    "\<not> g_stopRequested s1"
    "loop_delay 100 (add_log ''SIM: Loop %d/%d done'' [ArgInt (0 + 1), ArgInt 3] s1) = Some s3"
    "g_stopRequested s3"
    by blast
  have lh: "loop_head (Suc 0) ex_dpy ''a'' 3 100 ?st0 0 ?st0"
    by (rule loop_head.first)
  from cancel_in_delay_stops_run [THEN conjunct2, rule_format,
      where d = "Suc 0" and dpy = ex_dpy and script = "''a''" and loops = 3 and ld = 100
        and ?st0.0 = ?st0 and l = 0 and s = ?st0 and ?s1.0 = s1 and ?s3.0 = s3]
    lh ns0 e
  have "run_loops (Suc 0) ex_dpy ''a'' 3 100 ?st0 =
        Some (add_log ''SIM: Stopped by user (F2).'' []
               (add_log ''SIM: Aborted between loops at loop %d/%d'' [ArgInt (0 + 1), ArgInt 3]
                  (s3\<lparr>nodelay := False\<rparr>)))"
    by simp
  then have "simulate_typing (Suc 0) ex_dpy ''a'' 3 0 100 (ex_state [] [ERR, KEY_F 2, ERR]) =
        Some (add_log ''SIM: Stopped by user (F2).'' []
               (add_log ''SIM: Aborted between loops at loop %d/%d'' [ArgInt (0 + 1), ArgInt 3]
                  (s3\<lparr>nodelay := False\<rparr>)))"
    by (simp add: simulate_typing_started after_reset_def)
  with e show "\<exists>s1 s3.
      parse_and_type (Suc 0) ex_dpy ''a''
        (add_log ''SIM: Loop %d/%d begin'' [ArgInt (0 + 1), ArgInt 3]
           (started ''a'' 3 0 100 (ex_state [] [ERR, KEY_F 2, ERR]))) = Some s1
    \<and> \<not> g_stopRequested s1
    \<and> loop_delay 100 (add_log ''SIM: Loop %d/%d done'' [ArgInt (0 + 1), ArgInt 3] s1) = Some s3
    \<and> g_stopRequested s3
    \<and> simulate_typing (Suc 0) ex_dpy ''a'' 3 0 100 (ex_state [] [ERR, KEY_F 2, ERR]) =
        Some (add_log ''SIM: Stopped by user (F2).'' []
               (add_log ''SIM: Aborted between loops at loop %d/%d'' [ArgInt (0 + 1), ArgInt 3]
                  (s3\<lparr>nodelay := False\<rparr>)))"
    by blast
next
  let ?st0 = "started ''a'' 3 100 0 (ex_state [] [KEY_F 2])"
  have "\<exists>st1. start_delay 100 ?st0 = Some st1 \<and> g_stopRequested st1"
    by (simp add: started_def delay_wait.simps poll_getch_def to_emits ex_state_def emits_def
          ERR_def KEY_F_def)
  then obtain st1 where e: "start_delay 100 ?st0 = Some st1" "g_stopRequested st1" by blast
  from cancel_in_delay_stops_run [THEN conjunct1, rule_format,
      where sd = 100 and script = "''a''" and loops = 3 and ld = 0 and st = "ex_state [] [KEY_F 2]"
        and ?st1.0 = st1 and d = 0 and dpy = ex_dpy] e
  have "simulate_typing 0 ex_dpy ''a'' 3 100 0 (ex_state [] [KEY_F 2]) =
        Some (add_log ''SIM: Aborted before typing began.'' [] (st1\<lparr>nodelay := False\<rparr>))"
    by simp
  with e show "\<exists>st1.
      start_delay 100 (started ''a'' 3 100 0 (ex_state [] [KEY_F 2])) = Some st1
    \<and> g_stopRequested st1
    \<and> simulate_typing 0 ex_dpy ''a'' 3 100 0 (ex_state [] [KEY_F 2]) =
        Some (add_log ''SIM: Aborted before typing began.'' [] (st1\<lparr>nodelay := False\<rparr>))"
    by blast
qed

section \<open>C8: the recursion into message text\<close>

text \<open>
  C8. The interpreter calls itself on the text of a message with no test and no depth
  limit, and a run over a table in which no entry splices itself is to terminate. The code
  does not keep to that: the nested call ends with \<open>nodelay(stdscr, FALSE)\<close>, so the poll
  with which the outer loop goes on after the splice is a blocking one and its loop
  \<open>while (ch != ERR)\<close> never ends (\<open>splice_then_more_text\<close>). For the script
  \<open>{message1}a\<close> over the table of the single line \<open>b\<close>, with no key pressed and whatever
  nesting is allowed, \<open>parse_and_type\<close> never returns, although no entry of the table
  splices anything; the script \<open>{message1}\<close> alone returns, with the line typed, at nesting
  depth two. The rest is as stated. Where every message token is the last thing of its
  text, the outer loop never polls after a splice and the interpreter returns as soon as the
  nesting allowed exceeds the depth of the splices (\<open>nested_returns\<close>). For an entry that
  splices itself the recursion is unbounded (\<open>self_splice_never_returns\<close>).
\<close>

theorem splice_then_text_never_returns:
  "parse_and_type d ex_dpy ''{message1}a'' (ex_state [''b''] []) = None
   \<and> parse_and_type (Suc (Suc 0)) ex_dpy ''{message1}'' (ex_state [''b''] []) =
       Some \<lparr>g_stopRequested = False, g_messages = [''b''], nodelay = False, input = [],
             trace =
               [Log (''SIM: Found token {message%s} => line %d: '' @ [CHR 0x22] @ ''%s'' @ [CHR 0x22])
                  [ArgStr ''1'', ArgInt 1, ArgStr ''b''],
                Log (''SIM: Insert line => '' @ [CHR 0x22] @ ''%s'' @ [CHR 0x22]) [ArgStr ''b''],
                Log (''SIM: Sending char '' @ [CHR 0x27] @ ''%c'' @ [CHR 0x27]) [ArgChr CHR ''b''],
                XTestFakeKeyEvent 106 True, Usleep 30000, XTestFakeKeyEvent 106 False,
                Usleep 30000, Usleep 30000]\<rparr>"
proof
  have rd: "read_digits ''{message1}a'' 8 = ''1''" "read_digits ''{message1}'' 8 = ''1''"
    by (simp_all add: read_digits_def isdigit_def)
  have at: "atoi ''1'' = 1" by (simp add: atoi_def decimal_def)
  show "parse_and_type d ex_dpy ''{message1}a'' (ex_state [''b''] []) = None"
  proof (cases d)
    case 0
    then show ?thesis by (simp add: parse_and_type_def pt_loop.simps)
  next
    case (Suc d1)
    show ?thesis
    proof (cases d1)
      case 0
      with Suc show ?thesis
        by (simp add: parse_and_type_def pt_loop.simps poll_getch_def parse_special_token_def
              rd at cstr_def to_emits ex_state_def emits_def)
    next
      case (Suc d2)
      with \<open>d = Suc d1\<close> show ?thesis
        by (simp add: parse_and_type_def pt_loop.simps poll_getch_def parse_special_token_def
              rd at cstr_def to_emits ex_state_def emits_def)
    qed
  qed
  show "parse_and_type (Suc (Suc 0)) ex_dpy ''{message1}'' (ex_state [''b''] []) =
       Some \<lparr>g_stopRequested = False, g_messages = [''b''], nodelay = False, input = [],
             trace =
               [Log (''SIM: Found token {message%s} => line %d: '' @ [CHR 0x22] @ ''%s'' @ [CHR 0x22])
                  [ArgStr ''1'', ArgInt 1, ArgStr ''b''],
                Log (''SIM: Insert line => '' @ [CHR 0x22] @ ''%s'' @ [CHR 0x22]) [ArgStr ''b''],
                Log (''SIM: Sending char '' @ [CHR 0x27] @ ''%c'' @ [CHR 0x27]) [ArgChr CHR ''b''],
                XTestFakeKeyEvent 106 True, Usleep 30000, XTestFakeKeyEvent 106 False,
                Usleep 30000, Usleep 30000]\<rparr>"
    by (simp add: parse_and_type_def pt_loop.simps poll_getch_def parse_special_token_def
          rd at cstr_def to_emits send_events_def tap_events_def down_events_def up_events_def
          map_char_to_keysym_def punct_table_def NoSymbol_def isdigit_def
          ex_state_def ex_dpy_def emits_def)
qed

section \<open>C1: scanning partitions the script\<close>

text \<open>
  C1. When the loop of the interpreter runs from position 0 of a script and returns without
  the stop flag set, it returns at the end of the script (its length as a C string), and
  what it has done on the way is one pass through its body at each position of
  \<open>scan_from\<close>, in that order, and nothing else: making these passes one after the
  other from the initial state, each with the advance listed (the positive length the
  scanner returns, or exactly 1 when it returns 0), gives the very state the loop returns,
  and after the first \<open>k\<close> of them the loop is at its head at the \<open>k\<close>-th position, from
  where it runs to the same result. These positions increase strictly, and with their
  advances they tile the script: the ranges \<open>[p, p + a)\<close>, in order, make up
  \<open>[0, |script|)\<close> with no gap and no overlap, and the advances sum to the length.
\<close>

theorem scan_partitions_script:
  assumes "pt_loop (Suc d) dpy script 0 st = Some (j, st')" and "\<not> g_stopRequested st'"
  shows "j = strlen script
    \<and> concat (map (\<lambda>(p, a). [p..<p + a]) (scan_from st script 0)) = [0..<strlen script]
    \<and> sum_list (map snd (scan_from st script 0)) = strlen script
    \<and> sorted_wrt (<) (map fst (scan_from st script 0))
    \<and> (\<forall>(p, a) \<in> set (scan_from st script 0).
          a = (if 0 < fst (parse_special_token (drop p script) zero_action st)
               then fst (parse_special_token (drop p script) zero_action st) else 1))
    \<and> passes d dpy script (scan_from st script 0) st = Some st'
    \<and> (\<forall>k < length (scan_from st script 0).
          \<exists>s. passes d dpy script (take k (scan_from st script 0)) st = Some s
             \<and> pt_loop (Suc d) dpy script (fst (scan_from st script 0 ! k)) s = Some (j, st'))"
proof (intro conjI)
  show "j = strlen script"
    using run_index [OF pt_loop_run [OF assms(1)]] assms(2) by simp
  show "concat (map (\<lambda>(p, a). [p..<p + a]) (scan_from st script 0)) = [0..<strlen script]"
    using scan_partition [of 0 script st] by simp
  show "sum_list (map snd (scan_from st script 0)) = strlen script"
    using scan_partition [of 0 script st] by simp
  show "sorted_wrt (<) (map fst (scan_from st script 0))"
    by (rule scan_from_increasing)
  show "\<forall>(p, a) \<in> set (scan_from st script 0).
          a = (if 0 < fst (parse_special_token (drop p script) zero_action st)
               then fst (parse_special_token (drop p script) zero_action st) else 1)"
    using scan_from_advance [of _ _ st script 0]
    by (fastforce simp: advance_def Let_def)
  show "passes d dpy script (scan_from st script 0) st = Some st'"
    using pt_loop_passes [OF assms refl] by blast
  show "\<forall>k < length (scan_from st script 0).
          \<exists>s. passes d dpy script (take k (scan_from st script 0)) st = Some s
             \<and> pt_loop (Suc d) dpy script (fst (scan_from st script 0 ! k)) s = Some (j, st')"
    using pt_loop_passes [OF assms refl] by blast
qed

theorem scan_partitions_script_witness:
  "(\<exists>j st'. pt_loop (Suc 0) ex_dpy ''a{up}{'' 0 ((ex_state [] [])\<lparr>nodelay := True\<rparr>) = Some (j, st')
       \<and> \<not> g_stopRequested st' \<and> j = 6
       \<and> passes 0 ex_dpy ''a{up}{'' [(0, 1), (1, 4), (5, 1)] ((ex_state [] [])\<lparr>nodelay := True\<rparr>)
           = Some st')
   \<and> scan_from ((ex_state [] [])\<lparr>nodelay := True\<rparr>) ''a{up}{'' 0 = [(0, 1), (1, 4), (5, 1)]
   \<and> sum_list (map snd (scan_from ((ex_state [] [])\<lparr>nodelay := True\<rparr>) ''a{up}{'' 0)) = 6
   \<and> strlen ''a{up}{'' = 6"
proof -
  let ?st = "(ex_state [] [])\<lparr>nodelay := True\<rparr>"
  have ev: "\<exists>j st'. pt_loop (Suc 0) ex_dpy ''a{up}{'' 0 ?st = Some (j, st') \<and> \<not> g_stopRequested st'"
    by (simp add: pt_loop.simps poll_getch_def parse_special_token_def key_table_def
          key_action_def to_emits ex_state_def emits_def zero_action_def)
  then obtain j st' where r: "pt_loop (Suc 0) ex_dpy ''a{up}{'' 0 ?st = Some (j, st')"
    and ns: "\<not> g_stopRequested st'" by blast
  have l: "strlen ''a{up}{'' = 6"
    by (simp add: strlen_def cstr_def)
  have sc: "scan_from ?st ''a{up}{'' 0 = [(0, 1), (1, 4), (5, 1)]"
    by (simp add: scan_from.simps advance_def parse_special_token_def key_table_def
          zero_action_def Let_def)
  note t = scan_partitions_script [OF r ns]
  have j: "j = 6" using t l by simp
  have "passes 0 ex_dpy ''a{up}{'' (scan_from ?st ''a{up}{'' 0) ?st = Some st'"
    using t by blast
  then have p: "passes 0 ex_dpy ''a{up}{'' [(0, 1), (1, 4), (5, 1)] ?st = Some st'"
    by (simp only: sc)
  have s: "sum_list (map snd (scan_from ?st ''a{up}{'' 0)) = 6"
    using t l by simp
  from r ns j p sc s l show ?thesis by blast
qed

section \<open>C3: a message token out of range is typed as literal text\<close>

text \<open>
  C3, as the code has it. The digit buffer of the scanner holds 31 digits. For a token
  \<open>{message<digits>}\<close> of at most 31 digits whose value \<open>n\<close> fits an \<open>int\<close> and is
  outside \<open>1 \<le> n \<le> |table|\<close>, the scanner logs the warning and returns 0, leaving
  the output record alone. For a token of more than 31 digits the scanner returns 0 without
  logging anything: the character after the 31st digit is not the closing brace. In both cases
  (whenever the scanner returns 0 at the token), when the loop of the interpreter is at the
  token with \<open>getch()\<close> not blocking (\<open>nodelay\<close> in force, as \<open>parse_and_type\<close> sets it
  on entry) and no cancellation set or pending, the interpreter types the text of the token
  character by character, from the opening brace to the closing brace, and goes on after it
  in the same condition; the events of that stretch are those of typing literal characters,
  so there is no splice.

  The claim as stated fails on the 32 zeros of \<open>message_out_of_range_counterexample\<close>: the
  value 0 is out of range, and the scanner returns 0 with no log line.
\<close>

theorem message_out_of_range:
  assumes "\<forall>c \<in> set ds. isdigit c"
  shows "(length ds \<le> 31 \<and> decimal ds \<le> 2147483647 \<and>
          (decimal ds < 1 \<or> length (g_messages st) < decimal ds) \<longrightarrow>
            parse_special_token (''{message'' @ ds @ ''}'' @ rest) out st =
              (0, out, add_log ''WARN: {message%d} out of range (1..%d)''
                         [ArgInt (int (decimal ds)), ArgInt (int (length (g_messages st)))] st))
    \<and> (31 < length ds \<longrightarrow>
            parse_special_token (''{message'' @ ds @ ''}'' @ rest) out st = (0, out, st))
    \<and> (fst (parse_special_token (''{message'' @ ds @ ''}'' @ rest) zero_action st) = 0 \<and>
        nodelay st \<and> \<not> g_stopRequested st \<and> KEY_F 2 \<notin> set (input st) \<and>
        drop i script = ''{message'' @ ds @ ''}'' @ rest \<longrightarrow>
          (\<exists>st' ws.
              pt_loop (Suc d) dpy script i st =
                pt_loop (Suc d) dpy script (i + length (''{message'' @ ds @ ''}'')) st'
            \<and> trace st' = trace st @ ws
            \<and> typed ws = ''{message'' @ ds @ ''}''
            \<and> key_events ws = concat (map (\<lambda>c. key_events (send_events dpy c)) (''{message'' @ ds @ ''}''))
            \<and> (\<forall>e \<in> set ws. lit_event e)
            \<and> nodelay st' \<and> \<not> g_stopRequested st' \<and> KEY_F 2 \<notin> set (input st')
            \<and> g_messages st' = g_messages st))"
proof (intro conjI impI)
  assume h: "length ds \<le> 31 \<and> decimal ds \<le> 2147483647 \<and>
          (decimal ds < 1 \<or> length (g_messages st) < decimal ds)"
  then have a: "atoi ds = int (decimal ds)" by (simp add: atoi_small)
  show "parse_special_token (''{message'' @ ds @ ''}'' @ rest) out st =
              (0, out, add_log ''WARN: {message%d} out of range (1..%d)''
                         [ArgInt (int (decimal ds)), ArgInt (int (length (g_messages st)))] st)"
    using message_token_rejected(1) [OF assms, of st rest out] h unfolding a by auto
next
  assume "31 < length ds"
  then show "parse_special_token (''{message'' @ ds @ ''}'' @ rest) out st = (0, out, st)"
    by (rule message_token_rejected(2) [OF assms])
next
  let ?tok = "''{message'' @ ds @ ''}''"
  assume h: "fst (parse_special_token (''{message'' @ ds @ ''}'' @ rest) zero_action st) = 0 \<and>
        nodelay st \<and> \<not> g_stopRequested st \<and> KEY_F 2 \<notin> set (input st) \<and>
        drop i script = ''{message'' @ ds @ ''}'' @ rest"
  then have dr: "drop i script = ?tok @ rest" by simp
  from h have cm: "calm st" by (simp add: calm_def)
  have seg: "\<forall>k < length ?tok. char_at script (i + k) \<noteq> CHR 0x00 \<and>
                  fst (parse_special_token (drop (i + k) script) zero_action st) = 0"
  proof (intro allI impI)
    fix k assume k: "k < length ?tok"
    show "char_at script (i + k) \<noteq> CHR 0x00 \<and>
                  fst (parse_special_token (drop (i + k) script) zero_action st) = 0"
    proof (cases "k = 0")
      case True
      have "char_at script i = char_at (drop i script) 0" by (simp add: char_at_drop)
      then have "char_at script i = CHR ''{''" unfolding dr by simp
      then show ?thesis using True h by simp
    next
      case False
      have "char_at script (i + k) = char_at (drop i script) k" by (simp add: char_at_drop)
      then have "plain (char_at script (i + k))"
        using message_token_plain [OF assms _ k, of rest] False unfolding dr by simp
      moreover have "char_at (drop (i + k) script) 0 = char_at script (i + k)"
        by (simp add: char_at_drop)
      ultimately show ?thesis
        by (simp add: plain_def not_brace_rejected)
    qed
  qed
  from literal_segment [OF cm seg, of d dpy]
  obtain st' ws where r: "pt_loop (Suc d) dpy script i st = pt_loop (Suc d) dpy script (i + length ?tok) st'"
    "calm st'" "g_messages st' = g_messages st" "trace st' = trace st @ ws"
    "lit_trace dpy (map (char_at script) [i..<i + length ?tok]) ws"
    by blast
  have m: "map (char_at script) [i..<i + length ?tok] = ?tok"
    by (rule map_char_at_drop [OF dr])
  have "lit_trace dpy ?tok ws" using r(5) by (simp only: m)
  moreover have "nodelay st' \<and> \<not> g_stopRequested st' \<and> KEY_F 2 \<notin> set (input st')"
    using r(2) by (simp add: calm_def)
  ultimately show "\<exists>st' ws.
              pt_loop (Suc d) dpy script i st =
                pt_loop (Suc d) dpy script (i + length (''{message'' @ ds @ ''}'')) st'
            \<and> trace st' = trace st @ ws
            \<and> typed ws = ''{message'' @ ds @ ''}''
            \<and> key_events ws = concat (map (\<lambda>c. key_events (send_events dpy c)) (''{message'' @ ds @ ''}''))
            \<and> (\<forall>e \<in> set ws. lit_event e)
            \<and> nodelay st' \<and> \<not> g_stopRequested st' \<and> KEY_F 2 \<notin> set (input st')
            \<and> g_messages st' = g_messages st"
    using r(1,3,4) unfolding lit_trace_def by blast
qed

theorem message_out_of_range_counterexample:
  "list_all isdigit ''00000000000000000000000000000000''
   \<and> decimal ''00000000000000000000000000000000'' = 0
   \<and> parse_special_token ''{message00000000000000000000000000000000}'' zero_action
        (ex_state [''hello''] [])
      = (0, zero_action, ex_state [''hello''] [])
   \<and> trace (snd (snd (parse_special_token ''{message00000000000000000000000000000000}''
        zero_action (ex_state [''hello''] [])))) = []"
  by (simp add: isdigit_def decimal_def parse_special_token_def read_digits_def ex_state_def)

theorem message_out_of_range_witness:
  "isdigit CHR ''5'' \<and> decimal ''5'' = 5
   \<and> parse_special_token ''{message5}'' zero_action ((ex_state [''hello''] [])\<lparr>nodelay := True\<rparr>)
       = (0, zero_action,
          add_log ''WARN: {message%d} out of range (1..%d)'' [ArgInt 5, ArgInt 1]
            ((ex_state [''hello''] [])\<lparr>nodelay := True\<rparr>))
   \<and> nodelay ((ex_state [''hello''] [])\<lparr>nodelay := True\<rparr>)
   \<and> KEY_F 2 \<notin> set (input ((ex_state [''hello''] [])\<lparr>nodelay := True\<rparr>))
   \<and> (\<exists>st'. parse_and_type (Suc 0) ex_dpy ''{message5}'' (ex_state [''hello''] []) = Some st'
          \<and> typed (trace st') = ''{message5}'' \<and> (\<forall>e \<in> set (trace st'). lit_event e))"
proof -
  let ?st = "(ex_state [''hello''] [])\<lparr>nodelay := True\<rparr>"
  have dg: "\<forall>c \<in> set ''5''. isdigit c" and d5: "decimal ''5'' = 5"
    by (simp_all add: isdigit_def decimal_def)
  have cm: "nodelay ?st \<and> \<not> g_stopRequested ?st \<and> KEY_F 2 \<notin> set (input ?st)"
    by (simp add: ex_state_def)
  have gm: "g_messages ?st = [''hello'']" and tr: "trace ?st = []"
    by (simp_all add: ex_state_def)
  note t = message_out_of_range [OF dg, where st = ?st and rest = "[]" and out = zero_action
      and i = 0 and script = "''{message5}''" and d = 0 and dpy = ex_dpy]
  have p: "parse_special_token ''{message5}'' zero_action ?st
       = (0, zero_action, add_log ''WARN: {message%d} out of range (1..%d)'' [ArgInt 5, ArgInt 1] ?st)"
    using t by (simp add: d5 gm)
  have hyp: "fst (parse_special_token (''{message'' @ ''5'' @ ''}'' @ []) zero_action ?st) = 0 \<and>
      nodelay ?st \<and> \<not> g_stopRequested ?st \<and> KEY_F 2 \<notin> set (input ?st) \<and>
      drop 0 ''{message5}'' = ''{message'' @ ''5'' @ ''}'' @ []"
    using p cm by simp
  from t [THEN conjunct2, THEN conjunct2, rule_format, OF hyp]
  obtain st' ws where
    r0: "pt_loop (Suc 0) ex_dpy ''{message5}'' 0 ?st =
         pt_loop (Suc 0) ex_dpy ''{message5}'' (0 + length (''{message'' @ ''5'' @ ''}'')) st'"
    and r1: "trace st' = trace ?st @ ws" "typed ws = ''{message'' @ ''5'' @ ''}''"
      "\<forall>e \<in> set ws. lit_event e"
    by blast
  have "pt_loop (Suc 0) ex_dpy ''{message5}'' (0 + length (''{message'' @ ''5'' @ ''}'')) st'
        = Some (0 + length (''{message'' @ ''5'' @ ''}''), st')"
    by (rule pt_loop_stop) simp
  with r0 r1 have "parse_and_type (Suc 0) ex_dpy ''{message5}'' (ex_state [''hello''] [])
        = Some (st'\<lparr>nodelay := False\<rparr>)"
    "typed (trace (st'\<lparr>nodelay := False\<rparr>)) = ''{message5}''"
    "\<forall>e \<in> set (trace (st'\<lparr>nodelay := False\<rparr>)). lit_event e"
    by (simp_all add: parse_and_type_def tr)
  then show ?thesis using p cm d5 by (simp add: isdigit_def)
qed

end
